theory Spec2Isabelle
  imports Complex_Main
begin

section \<open>nanoPerplexityAI: evidence retrieval and citation normalisation\<close>

text \<open>
  A shallow embedding of \<^verbatim>\<open>src/nanoPerplexityAI.py\<close>. A Python \<^verbatim>\<open>str\<close> is a
  \<^typ>\<open>string\<close>, read as a list of code points below 256; in that range the only
  characters the regular expression class \<^verbatim>\<open>\d\<close> accepts are \<^verbatim>\<open>0\<close> to \<^verbatim>\<open>9\<close>.
  A Python \<^verbatim>\<open>dict\<close> is an association list with distinct keys, kept in insertion
  order. An exception is a value on the left of a sum.
\<close>

subsection \<open>Strings, decimal numerals and lists as Python has them\<close>

definition is_digit :: "char \<Rightarrow> bool" where
  "is_digit c \<longleftrightarrow> c \<in> set ''0123456789''"

text \<open>
  \<^verbatim>\<open>int(s)\<close> on a non-empty string of decimal digits; leading zeros are accepted.
  Python integers are unbounded. The limit that recent interpreters put on the number
  of digits \<^verbatim>\<open>int\<close> and \<^verbatim>\<open>str\<close> convert (4300 unless configured) is not modelled.
\<close>

definition digit_val :: "char \<Rightarrow> nat" where
  "digit_val c = of_char c - 48"

definition int_of_digits :: "string \<Rightarrow> nat" where
  "int_of_digits ds = foldl (\<lambda>a c. 10 * a + digit_val c) 0 ds"

text \<open>\<^verbatim>\<open>str(n)\<close> and the f-string field \<^verbatim>\<open>{n}\<close> for a non-negative integer.\<close>

definition digit_char :: "nat \<Rightarrow> char" where
  "digit_char d = ''0123456789'' ! d"

fun str_nat :: "nat \<Rightarrow> string" where
  "str_nat n = (if n < 10 then [digit_char n] else str_nat (n div 10) @ [digit_char (n mod 10)])"

declare str_nat.simps [simp del]

text \<open>\<^verbatim>\<open>sep.join(xs)\<close>.\<close>

fun join :: "string \<Rightarrow> string list \<Rightarrow> string" where
  "join sep [] = []"
| "join sep [x] = x"
| "join sep (x # y # ys) = x @ sep @ join sep (y # ys)"

definition newline :: string where
  "newline = [CHR 0x0A]"

datatype py_error = IndexError | AttributeError | OSError

text \<open>\<^verbatim>\<open>xs[i]\<close>: a negative index counts from the end, an index out of range raises.\<close>

definition py_index :: "'a list \<Rightarrow> int \<Rightarrow> py_error + 'a" where
  "py_index xs i =
     (if 0 \<le> i \<and> i < int (length xs) then Inr (xs ! nat i)
      else if i < 0 \<and> - int (length xs) \<le> i then Inr (xs ! nat (int (length xs) + i))
      else Inl IndexError)"

subsection \<open>The two regular expressions of \<^verbatim>\<open>renumber_citations\<close>\<close>

text \<open>
  \<^verbatim>\<open>c?\<close> at the head of a string: the greedy choice consumes the character when it is
  there. In both patterns below the other choice cannot lead to a match (the next item
  of the pattern is a digit or \<^verbatim>\<open>]\<close>, never the optional character), so backtracking
  changes nothing.
\<close>

definition opt_char :: "char \<Rightarrow> string \<Rightarrow> string" where
  "opt_char c s = (case s of [] \<Rightarrow> [] | x # xs \<Rightarrow> if x = c then xs else x # xs)"

text \<open>
  \<^verbatim>\<open>\[\(?(\d+)\)?\]\<close> matched at the head of \<open>s\<close>: the digits of the group and the text
  after the match. \<^verbatim>\<open>\d+\<close> takes the whole run of digits: a shorter run would leave a
  digit where the pattern wants \<^verbatim>\<open>)\<close> or \<^verbatim>\<open>]\<close>.
\<close>

definition match_marker :: "string \<Rightarrow> (string \<times> string) option" where
  "match_marker s =
     (case s of
        [] \<Rightarrow> None
      | c # s1 \<Rightarrow>
          if c \<noteq> CHR ''['' then None
          else
            (let s2 = opt_char CHR ''('' s1;
                 ds = takeWhile is_digit s2;
                 s3 = opt_char CHR '')'' (dropWhile is_digit s2)
             in if ds = [] then None
                else (case s3 of
                        [] \<Rightarrow> None
                      | d # rest \<Rightarrow> if d = CHR '']'' then Some (ds, rest) else None)))"

text \<open>
  \<^verbatim>\<open>\[\(?{old}\)?\]\<close> matched at the head of \<open>s\<close>, where \<open>old\<close> is the decimal text the
  f-string put into the pattern: the text after the match.
\<close>

definition match_old :: "string \<Rightarrow> string \<Rightarrow> string option" where
  "match_old old s =
     (case s of
        [] \<Rightarrow> None
      | c # s1 \<Rightarrow>
          if c \<noteq> CHR ''['' then None
          else
            (let s2 = opt_char CHR ''('' s1
             in if take (length old) s2 \<noteq> old then None
                else (case opt_char CHR '')'' (drop (length old) s2) of
                        [] \<Rightarrow> None
                      | d # rest \<Rightarrow> if d = CHR '']'' then Some rest else None)))"

lemma opt_char_length: "length (opt_char c s) \<le> length s"
  by (simp add: opt_char_def split: list.split)

lemma match_marker_shorter:
  assumes "match_marker s = Some (ds, rest)"
  shows "length rest < length s"
proof -
  from assms obtain s1 where s: "s = CHR ''['' # s1"
    by (auto simp: match_marker_def split: list.splits if_splits)
  let ?s2 = "opt_char CHR ''('' s1"
  from assms s have "opt_char CHR '')'' (dropWhile is_digit ?s2) = CHR '']'' # rest"
    by (auto simp: match_marker_def Let_def split: list.splits if_splits)
  then have "Suc (length rest) \<le> length (dropWhile is_digit ?s2)"
    using opt_char_length [of "CHR '')''" "dropWhile is_digit ?s2"] by simp
  also have "\<dots> \<le> length ?s2"
    by (rule length_dropWhile_le)
  also have "\<dots> \<le> length s1"
    by (rule opt_char_length)
  finally show ?thesis using s by simp
qed

lemma match_old_shorter:
  assumes "match_old old s = Some rest"
  shows "length rest < length s"
proof -
  from assms obtain s1 where s: "s = CHR ''['' # s1"
    by (auto simp: match_old_def split: list.splits if_splits)
  let ?s2 = "opt_char CHR ''('' s1"
  from assms s have "opt_char CHR '')'' (drop (length old) ?s2) = CHR '']'' # rest"
    by (auto simp: match_old_def Let_def split: list.splits if_splits)
  then have "Suc (length rest) \<le> length (drop (length old) ?s2)"
    using opt_char_length [of "CHR '')''" "drop (length old) ?s2"] by simp
  also have "\<dots> \<le> length ?s2"
    by simp
  also have "\<dots> \<le> length s1"
    by (rule opt_char_length)
  finally show ?thesis using s by simp
qed

text \<open>
  \<^verbatim>\<open>re.findall(r'\[\(?(\d+)\)?\]', response)\<close>: scanning from the left, the group of
  every match; after a match the scan goes on behind it, elsewhere one character on.
\<close>

function findall :: "string \<Rightarrow> string list" where
  "findall [] = []"
| "findall (c # cs) =
     (case match_marker (c # cs) of
        Some (ds, rest) \<Rightarrow> ds # findall rest
      | None \<Rightarrow> findall cs)"
  by pat_completeness auto
termination
  by (relation "measure length") (auto dest: match_marker_shorter)

text \<open>
  \<^verbatim>\<open>re.sub(rf'\[\(?{old}\)?\]', f'[{new}]', response)\<close>: every match, from the left, is
  replaced by \<open>repl\<close>; the replacement is not scanned again.
\<close>

function sub :: "string \<Rightarrow> string \<Rightarrow> string \<Rightarrow> string" where
  "sub old repl [] = []"
| "sub old repl (c # cs) =
     (case match_old old (c # cs) of
        Some rest \<Rightarrow> repl @ sub old repl rest
      | None \<Rightarrow> c # sub old repl cs)"
  by pat_completeness auto
termination
  by (relation "measure (\<lambda>(old, repl, s). length s)") (auto dest: match_old_shorter)

subsection \<open>\<^verbatim>\<open>renumber_citations\<close>, \<^verbatim>\<open>generate_citation_links\<close>, \<^verbatim>\<open>save_markdown\<close>\<close>

text \<open>
  The citation mapping \<^verbatim>\<open>citation_map\<close>, old value to new value in insertion order. Its
  keys come from \<^verbatim>\<open>int\<close> of a run of digits, its values from \<^verbatim>\<open>enumerate\<close>: natural
  numbers.
\<close>

type_synonym citation_map = "(nat \<times> nat) list"

text \<open>The evidence map \<^verbatim>\<open>search_dic\<close>: URL to page text, in insertion order.\<close>

type_synonym evidence = "(string \<times> string) list"

definition sub_citation :: "nat \<times> nat \<Rightarrow> string \<Rightarrow> string" where
  "sub_citation p response =
     sub (str_nat (fst p)) (''['' @ str_nat (snd p) @ '']'') response"

definition renumber_citations :: "string \<Rightarrow> string \<times> citation_map" where
  "renumber_citations response =
     (let citations = sort (remdups (map int_of_digits (findall response)));
          citation_map = zip citations [1..<Suc (length citations)]
      in (fold sub_citation citation_map response, citation_map))"

text \<open>
  The list comprehension of \<^verbatim>\<open>generate_citation_links\<close>: the lines in the order of the
  mapping; the first index that raises ends it.
\<close>

fun cited_links :: "citation_map \<Rightarrow> string list \<Rightarrow> py_error + string list" where
  "cited_links [] keys = Inr []"
| "cited_links ((old, new) # cm) keys =
     (case py_index keys (int old - 1) of
        Inl e \<Rightarrow> Inl e
      | Inr url \<Rightarrow>
          (case cited_links cm keys of
             Inl e \<Rightarrow> Inl e
           | Inr ls \<Rightarrow> Inr ((str_nat new @ ''. '' @ url) # ls)))"

text \<open>
  \<^verbatim>\<open>search_dic\<close> is \<^verbatim>\<open>None\<close> when \<^verbatim>\<open>llm_check_search\<close> decided against a search;
  \<^verbatim>\<open>search_dic.keys()\<close> is evaluated once for every item, so only a non-empty mapping
  reaches it.
\<close>

definition generate_citation_links :: "citation_map \<Rightarrow> evidence option \<Rightarrow> py_error + string" where
  "generate_citation_links citation_map search_dic =
     (case search_dic of
        None \<Rightarrow> if citation_map = [] then Inr [] else Inl AttributeError
      | Some d \<Rightarrow>
          (case cited_links citation_map (map fst d) of
             Inl e \<Rightarrow> Inl e
           | Inr ls \<Rightarrow> Inr (join newline ls)))"

text \<open>
  The files, as far as \<^verbatim>\<open>save_markdown\<close> meets them: the content of every file, and
  whether \<^verbatim>\<open>open(name, "w")\<close> succeeds for a name. It raises an \<^verbatim>\<open>OSError\<close> when it
  does not: a directory that is missing (the query \<^verbatim>\<open>a/b\<close>), a name that is too long,
  a directory that may not be written. What \<^verbatim>\<open>open\<close> raises for a malformed name is
  counted with it.
\<close>

record file_system =
  contents :: "string \<rightharpoonup> string"
  can_open :: "string \<Rightarrow> bool"

definition write_file :: "string \<Rightarrow> string \<Rightarrow> file_system \<Rightarrow> py_error + file_system" where
  "write_file name content files =
     (if can_open files name then Inr (files\<lparr>contents := (contents files)(name \<mapsto> content)\<rparr>)
      else Inl OSError)"

text \<open>
  \<^verbatim>\<open>save_markdown\<close>: \<open>links_block\<close> is its second line, \<open>output_content\<close> its third,
  \<open>write_file\<close> its \<^verbatim>\<open>with\<close> statement.
\<close>

definition links_block :: "citation_map \<Rightarrow> evidence option \<Rightarrow> py_error + string" where
  "links_block citation_map search_dic =
     (if citation_map \<noteq> [] then generate_citation_links citation_map search_dic else Inr [])"

definition output_content :: "string \<Rightarrow> string \<Rightarrow> citation_map \<Rightarrow> string \<Rightarrow> string" where
  "output_content query response citation_map links =
     (if citation_map \<noteq> []
      then ''# '' @ query @ newline @ newline @ ''## Sources'' @ newline @ links
           @ newline @ newline @ ''## Answer'' @ newline @ response
      else ''# '' @ query @ newline @ newline @ ''## Answer'' @ newline @ response)"

definition save_markdown ::
  "string \<Rightarrow> string \<Rightarrow> evidence option \<Rightarrow> file_system \<Rightarrow> py_error + file_system" where
  "save_markdown query response0 search_dic files =
     (let (response, citation_map) = renumber_citations response0
      in case links_block citation_map search_dic of
           Inl e \<Rightarrow> Inl e
         | Inr links \<Rightarrow>
             write_file (query @ ''.md'') (output_content query response citation_map links)
               files)"

subsection \<open>The deadline and the page fetcher\<close>

text \<open>
  Clock readings (\<^verbatim>\<open>time.time()\<close>) and timeouts are seconds, taken as real numbers.
\<close>

definition NUM_SEARCH :: nat where
  "NUM_SEARCH = 10"


definition TOTAL_TIMEOUT :: real where
  "TOTAL_TIMEOUT = 6"

text \<open>
  The classes of exception that matter to \<^verbatim>\<open>fetch_webpage\<close>: the two its
  \<^verbatim>\<open>except\<close> clause names, and every other one.
\<close>

datatype fetch_exn = RequestException | TimeoutError | OtherException

text \<open>
  What \<^verbatim>\<open>requests.get\<close> returns, as far as the program reads it: the status, and
  \<^verbatim>\<open>para.get_text()\<close> for every \<^verbatim>\<open>p\<close> element of the parsed body.
\<close>

record http_response =
  status_code :: nat
  paragraphs :: "string list"

text \<open>
  The world of one call of \<^verbatim>\<open>fetch_webpage\<close>: the clock reading at its first line,
  the clock readings at which the interpreter calls the installed trace function while
  the \<^verbatim>\<open>try\<close> block runs (in order), and what \<^verbatim>\<open>requests.get\<close> does for a URL and
  a timeout.
\<close>

record fetch_env =
  entry_time :: real
  polls :: "real list"
  http_get :: "string \<Rightarrow> real \<Rightarrow> fetch_exn + http_response"

text \<open>
  \<^verbatim>\<open>trace_function_factory(start)\<close> is the closure \<^verbatim>\<open>trace_function\<close>; its further
  argument here is the clock reading of the call.
\<close>

definition trace_function_factory :: "real \<Rightarrow> real \<Rightarrow> fetch_exn + unit" where
  "trace_function_factory start now =
     (if now - start > TOTAL_TIMEOUT then Inl TimeoutError else Inr ())"

fun run_polls :: "(real \<Rightarrow> fetch_exn + unit) \<Rightarrow> real list \<Rightarrow> fetch_exn + unit" where
  "run_polls trace [] = Inr ()"
| "run_polls trace (now # rest) =
     (case trace now of Inl e \<Rightarrow> Inl e | Inr u \<Rightarrow> run_polls trace rest)"

text \<open>\<^verbatim>\<open>response.raise_for_status()\<close>: \<^verbatim>\<open>HTTPError\<close> is a \<^verbatim>\<open>RequestException\<close>.\<close>

definition raise_for_status :: "http_response \<Rightarrow> fetch_exn + unit" where
  "raise_for_status response =
     (if 400 \<le> status_code response \<and> status_code response < 600
      then Inl RequestException else Inr ())"

text \<open>
  The \<^verbatim>\<open>try\<close> block. An exception raised by the trace function ends the block where
  it is raised, so a poll that raises decides the outcome.
\<close>

definition try_block :: "fetch_env \<Rightarrow> real \<Rightarrow> string \<Rightarrow> real \<Rightarrow> fetch_exn + string" where
  "try_block env start url timeout =
     (case run_polls (trace_function_factory start) (polls env) of
        Inl e \<Rightarrow> Inl e
      | Inr u \<Rightarrow>
          (case http_get env url timeout of
             Inl e \<Rightarrow> Inl e
           | Inr response \<Rightarrow>
               (case raise_for_status response of
                  Inl e \<Rightarrow> Inl e
                | Inr u \<Rightarrow> Inr (join '' '' (paragraphs response)))))"

definition fetch_webpage ::
  "fetch_env \<Rightarrow> string \<Rightarrow> real \<Rightarrow> fetch_exn + (string \<times> string option)" where
  "fetch_webpage env url timeout =
     (let start = entry_time env
      in case try_block env start url timeout of
           Inr page_text \<Rightarrow> Inr (url, Some page_text)
         | Inl RequestException \<Rightarrow> Inr (url, None)
         | Inl TimeoutError \<Rightarrow> Inr (url, None)
         | Inl OtherException \<Rightarrow> Inl OtherException)"

subsection \<open>The scheduler \<^verbatim>\<open>google_parse_webpages\<close>\<close>

text \<open>\<^verbatim>\<open>d[k] = v\<close>: a key already there keeps its place and gets the new value.\<close>

fun dict_set :: "'k \<Rightarrow> 'v \<Rightarrow> ('k \<times> 'v) list \<Rightarrow> ('k \<times> 'v) list" where
  "dict_set k v [] = [(k, v)]"
| "dict_set k v ((k', v') # d) =
     (if k' = k then (k, v) # d else (k', v') # dict_set k v d)"

text \<open>
  The dictionary comprehension over the completed futures: \<^verbatim>\<open>future.result()\<close> raises
  again what the call raised; a result is kept when its URL and its text are both
  truthy, that is, the URL is not empty and the text is neither \<^verbatim>\<open>None\<close> nor empty.
\<close>

fun collect ::
  "(fetch_exn + (string \<times> string option)) list \<Rightarrow> evidence \<Rightarrow> fetch_exn + evidence" where
  "collect [] d = Inr d"
| "collect (Inl e # rs) d = Inl e"
| "collect (Inr (url, None) # rs) d = collect rs d"
| "collect (Inr (url, Some page_text) # rs) d =
     (if url \<noteq> [] \<and> page_text \<noteq> [] then collect rs (dict_set url page_text d)
      else collect rs d)"

text \<open>
  \<open>search\<close> is the search provider. The i-th submitted call runs in the world
  \<open>envs ! i\<close>; \<open>order\<close> lists the indices of the futures as \<^verbatim>\<open>as_completed\<close> yields
  them, a permutation of the indices that depends on the run. The number of workers
  decides when a call starts, which is part of its world.
\<close>

definition futures :: "fetch_env list \<Rightarrow> string list \<Rightarrow> real \<Rightarrow> (fetch_exn + (string \<times> string option)) list" where
  "futures envs urls search_time_limit =
     map (\<lambda>(env, url). fetch_webpage env url search_time_limit) (zip envs urls)"

definition as_completed :: "nat list \<Rightarrow> 'a list \<Rightarrow> 'a list" where
  "as_completed order fs = map (\<lambda>i. fs ! i) order"

definition google_parse_webpages ::
  "(string \<Rightarrow> nat \<Rightarrow> string list) \<Rightarrow> fetch_env list \<Rightarrow> nat list
     \<Rightarrow> string \<Rightarrow> nat \<Rightarrow> real \<Rightarrow> fetch_exn + evidence" where
  "google_parse_webpages search envs order query num_search search_time_limit =
     (let urls = search query num_search
      in collect (as_completed order (futures envs urls search_time_limit)) [])"

subsection \<open>Auxiliary definitions for the statements\<close>

text \<open>
  The texts that the comprehension writes under the key \<open>u\<close>, in the order of the
  completed results: those of the results for \<open>u\<close> that pass its filter.
\<close>

fun texts_for :: "string \<Rightarrow> (fetch_exn + (string \<times> string option)) list \<Rightarrow> string list" where
  "texts_for u [] = []"
| "texts_for u (Inl e # rs) = texts_for u rs"
| "texts_for u (Inr (url, None) # rs) = texts_for u rs"
| "texts_for u (Inr (url, Some page_text) # rs) =
     (if url = u \<and> url \<noteq> [] \<and> page_text \<noteq> [] then page_text # texts_for u rs
      else texts_for u rs)"

text \<open>
  Rewriting the markers of a text in one pass, for comparison with the loop of
  \<^verbatim>\<open>renumber_citations\<close>: scanning as \<^verbatim>\<open>findall\<close> does, a marker whose digits \<open>f\<close>
  maps to a replacement is replaced by it, and everything else is copied.
\<close>

function rewrite :: "(string \<Rightarrow> string option) \<Rightarrow> string \<Rightarrow> string" where
  "rewrite f [] = []"
| "rewrite f (c # cs) =
     (case match_marker (c # cs) of
        None \<Rightarrow> c # rewrite f cs
      | Some (ds, rest) \<Rightarrow>
          (case f ds of None \<Rightarrow> c # rewrite f cs | Some r \<Rightarrow> r @ rewrite f rest))"
  by pat_completeness auto
termination
  by (relation "measure (\<lambda>(f, s). length s)") (auto dest: match_marker_shorter)

text \<open>Replacements that start with a bracket; replacements that are plain markers.\<close>

definition opens_with_bracket :: "(string \<Rightarrow> string option) \<Rightarrow> bool" where
  "opens_with_bracket f \<longleftrightarrow> (\<forall>ds r. f ds = Some r \<longrightarrow> (\<exists>r'. r = CHR ''['' # r'))"

definition bracketed :: "(string \<Rightarrow> string option) \<Rightarrow> bool" where
  "bracketed f \<longleftrightarrow>
     (\<forall>ds r. f ds = Some r \<longrightarrow>
        (\<exists>ds'. r = ''['' @ ds' @ '']'' \<and> ds' \<noteq> [] \<and> (\<forall>c \<in> set ds'. is_digit c)))"

text \<open>
  \<^verbatim>\<open>f'[{new}]'\<close>, and what a mapping of marker values does to the digits of a marker
  under the loop: the marker is rewritten when its digits are the decimal text of a
  value of the mapping, that is, when \<^verbatim>\<open>str(int(ds)) == ds\<close>.
\<close>

definition bracket :: "nat \<Rightarrow> string" where
  "bracket n = ''['' @ str_nat n @ '']''"

definition marker_image :: "(nat \<rightharpoonup> nat) \<Rightarrow> string \<Rightarrow> string option" where
  "marker_image m ds =
     (if ds = str_nat (int_of_digits ds) then map_option bracket (m (int_of_digits ds)) else None)"

text \<open>
  A list of pairs whose rewrites do not interfere: no old value is rewritten twice,
  and no old value is a new value written before it.
\<close>

fun no_chain :: "(nat \<rightharpoonup> nat) \<Rightarrow> citation_map \<Rightarrow> bool" where
  "no_chain m [] = True"
| "no_chain m ((old, new) # cm) =
     (m old = None \<and> old \<notin> ran m \<and> no_chain (m(old \<mapsto> new)) cm)"

definition record_pair :: "nat \<times> nat \<Rightarrow> (nat \<rightharpoonup> nat) \<Rightarrow> (nat \<rightharpoonup> nat)" where
  "record_pair p m = m(fst p \<mapsto> snd p)"

text \<open>
  Every marker of the text is a positive integer written without leading zeros.
\<close>

definition canonical_markers :: "string \<Rightarrow> bool" where
  "canonical_markers s \<longleftrightarrow>
     list_all (\<lambda>ds. ds = str_nat (int_of_digits ds) \<and> int_of_digits ds \<noteq> 0) (findall s)"

text \<open>Concrete inputs: a search provider with a fixed answer, and worlds for one fetch.\<close>

definition search_fixed :: "string list \<Rightarrow> string \<Rightarrow> nat \<Rightarrow> string list" where
  "search_fixed urls query num_results = take num_results urls"

definition serving :: "real \<Rightarrow> real list \<Rightarrow> string list \<Rightarrow> fetch_env" where
  "serving start ticks ps =
     \<lparr>entry_time = start, polls = ticks,
      http_get = (\<lambda>url timeout. Inr \<lparr>status_code = 200, paragraphs = ps\<rparr>)\<rparr>"

definition unreachable :: "real \<Rightarrow> fetch_env" where
  "unreachable start =
     \<lparr>entry_time = start, polls = [], http_get = (\<lambda>url timeout. Inl RequestException)\<rparr>"


definition three_urls :: "string list" where
  "three_urls = [''http://a'', ''http://b'', ''http://c'']"

definition three_envs :: "fetch_env list" where
  "three_envs = [serving 0 [1] [''alpha'', ''beta''], unreachable 0, serving 0 [1] []]"

definition same_url_thrice :: "string list" where
  "same_url_thrice = [''http://a'', ''http://a'', ''http://a'']"

definition thrice_envs :: "fetch_env list" where
  "thrice_envs = [serving 0 [1] [''first''], serving 0 [1] [''second''], unreachable 0]"

definition same_url_twice :: "string list" where
  "same_url_twice = [''http://a'', ''http://a'']"

definition twice_envs :: "fetch_env list" where
  "twice_envs = [serving 0 [1] [''abc''], serving 0 [1] []]"

text \<open>
  The rewrites of the loop one after another, whatever the pairs are: \<open>only_marker\<close>
  is what one \<^verbatim>\<open>re.sub\<close> does to the digits of a marker, and \<open>after_sub p f\<close> is \<open>f\<close>
  followed by the \<^verbatim>\<open>re.sub\<close> for the pair \<open>p\<close>.
\<close>

definition only_marker :: "string \<Rightarrow> string \<Rightarrow> string \<Rightarrow> string option" where
  "only_marker old repl ds = (if ds = old then Some repl else None)"

definition after_sub ::
  "nat \<times> nat \<Rightarrow> (string \<Rightarrow> string option) \<Rightarrow> string \<Rightarrow> string option" where
  "after_sub p f ds =
     (case f ds of
        None \<Rightarrow> only_marker (str_nat (fst p)) (bracket (snd p)) ds
      | Some r \<Rightarrow> Some (rewrite (only_marker (str_nat (fst p)) (bracket (snd p))) r))"

text \<open>
  The marker values of a text are dense: they are 1 to K for some K.
\<close>

definition dense_markers :: "string \<Rightarrow> bool" where
  "dense_markers s \<longleftrightarrow>
     (let vs = sort (remdups (map int_of_digits (findall s))) in vs = [1..<Suc (length vs)])"

text \<open>
  A citation marker in the words of the specification: \<^verbatim>\<open>[k]\<close> for a positive integer
  \<open>k\<close>, optionally parenthesised, \<^verbatim>\<open>[(k)]\<close>. \<open>positive_then closing s\<close>: the text \<open>s\<close>
  starts with the digits of a positive integer followed by \<open>closing\<close>.
\<close>

definition positive_then :: "string \<Rightarrow> string \<Rightarrow> bool" where
  "positive_then closing s \<longleftrightarrow>
     (let ds = takeWhile is_digit s
      in ds \<noteq> [] \<and> 0 < int_of_digits ds
         \<and> take (length closing) (dropWhile is_digit s) = closing)"

definition spec_marker_here :: "string \<Rightarrow> bool" where
  "spec_marker_here s \<longleftrightarrow>
     (case s of
        [] \<Rightarrow> False
      | c # s1 \<Rightarrow>
          c = CHR ''['' \<and>
          (positive_then '']'' s1 \<or>
           (case s1 of [] \<Rightarrow> False | d # s2 \<Rightarrow> d = CHR ''('' \<and> positive_then '')]'' s2)))"

fun spec_has_marker :: "string \<Rightarrow> bool" where
  "spec_has_marker [] = False"
| "spec_has_marker (c # cs) = (spec_marker_here (c # cs) \<or> spec_has_marker cs)"

text \<open>A working directory without files and without subdirectories.\<close>

definition plain_disk :: file_system where
  "plain_disk = \<lparr>contents = Map.empty, can_open = (\<lambda>name. CHR ''/'' \<notin> set name)\<rparr>"

definition nine_keys :: evidence where
  "nine_keys = [(''u1'', ''a''), (''u2'', ''b''), (''u3'', ''c''), (''u4'', ''d''), (''u5'', ''e''),
                (''u6'', ''f''), (''u7'', ''g''), (''u8'', ''h''), (''u9'', ''i'')]"

section \<open>Properties\<close>

subsection \<open>Rendering the source list\<close>

lemma cited_links_ok:
  assumes "\<forall>p \<in> set cm. 1 \<le> fst p \<and> fst p \<le> length keys"
  shows "cited_links cm keys = Inr (map (\<lambda>p. str_nat (snd p) @ ''. '' @ keys ! (fst p - 1)) cm)"
  using assms
proof (induction cm)
  case Nil
  then show ?case by simp
next
  case (Cons p cm)
  obtain old new where p: "p = (old, new)" by (cases p)
  from Cons.prems p have b: "1 \<le> old" "old \<le> length keys" by auto
  then have "py_index keys (int old - 1) = Inr (keys ! (old - 1))"
    by (auto simp: py_index_def nat_diff_distrib')
  moreover from Cons have "cited_links cm keys = Inr (map (\<lambda>p. str_nat (snd p) @ ''. '' @ keys ! (fst p - 1)) cm)"
    by simp
  ultimately show ?case using p by simp
qed

lemma py_index_raises: "py_index xs i = Inl e \<Longrightarrow> e = IndexError"
  by (auto simp: py_index_def split: if_splits)

lemma cited_links_beyond:
  assumes "\<exists>p \<in> set cm. length keys < fst p"
  shows "cited_links cm keys = Inl IndexError"
  using assms
proof (induction cm)
  case Nil
  then show ?case by simp
next
  case (Cons p cm)
  obtain old new where p: "p = (old, new)" by (cases p)
  show ?case
  proof (cases "length keys < old")
    case True
    then have "py_index keys (int old - 1) = Inl IndexError"
      by (auto simp: py_index_def)
    with p show ?thesis by simp
  next
    case False
    with Cons.prems p have "\<exists>p \<in> set cm. length keys < fst p" by auto
    with Cons.IH have "cited_links cm keys = Inl IndexError" by simp
    with p show ?thesis
      by (auto split: sum.splits dest: py_index_raises)
  qed
qed

text \<open>
  C1, as the code has it: when some old marker value of the citation mapping exceeds
  the number of entries of the evidence map, \<^verbatim>\<open>generate_citation_links\<close> raises
  \<^verbatim>\<open>IndexError\<close>. No source list is produced, hence no wrong link, and nothing is
  reported: there is no placeholder and no warning, and \<^verbatim>\<open>save_markdown\<close> hands
  the exception on without writing the file.
\<close>

theorem generate_citation_links_beyond:
  assumes "\<exists>p \<in> set citation_map. length search_dic < fst p"
  shows "generate_citation_links citation_map (Some search_dic) = Inl IndexError
       \<and> (snd (renumber_citations response) = citation_map
            \<longrightarrow> save_markdown query response (Some search_dic) files = Inl IndexError)"
proof -
  have g: "generate_citation_links citation_map (Some search_dic) = Inl IndexError"
    using cited_links_beyond [of citation_map "map fst search_dic"] assms
    by (simp add: generate_citation_links_def)
  from assms have "citation_map \<noteq> []" by auto
  with g have "links_block citation_map (Some search_dic) = Inl IndexError"
    by (simp add: links_block_def)
  then have "snd (renumber_citations response) = citation_map
      \<longrightarrow> save_markdown query response (Some search_dic) files = Inl IndexError"
    by (auto simp: save_markdown_def split: prod.split)
  with g show ?thesis by simp
qed

theorem generate_citation_links_beyond_witness:
  "length nine_keys < fst (12, 2)
   \<and> generate_citation_links [(4, 1), (12, 2)] (Some nine_keys) = Inl IndexError
   \<and> snd (renumber_citations ''Both [4] and [12].'') = [(4, 1), (12, 2)]
   \<and> save_markdown ''q'' ''Both [4] and [12].'' (Some nine_keys) plain_disk = Inl IndexError"
proof -
  have h: "\<exists>p \<in> set [(4, 1), (12, 2)]. length nine_keys < fst p"
    by (simp add: nine_keys_def)
  have r: "snd (renumber_citations ''Both [4] and [12].'') = [(4, 1), (12, 2)]"
    by code_simp
  from generate_citation_links_beyond
         [OF h, of "''Both [4] and [12].''" "''q''" plain_disk] r
  show ?thesis
    by (simp add: nine_keys_def)
qed

text \<open>
  C1 as the specification states it (the fault is surfaced, nothing crashes) fails: the
  answer cites \<^verbatim>\<open>[3]\<close> over an evidence map of one entry, and the run ends in
  \<^verbatim>\<open>IndexError\<close> with no file written.
\<close>

theorem citation_beyond_evidence_raises:
  "renumber_citations ''As shown in [3].'' = (''As shown in [1].'', [(3, 1)])
   \<and> generate_citation_links [(3, 1)] (Some [(''http://a'', ''alpha'')]) = Inl IndexError
   \<and> save_markdown ''q'' ''As shown in [3].'' (Some [(''http://a'', ''alpha'')]) plain_disk
       = Inl IndexError"
proof -
  have r: "renumber_citations ''As shown in [3].'' = (''As shown in [1].'', [(3, 1)])"
    by code_simp
  have g: "generate_citation_links [(3, 1)] (Some [(''http://a'', ''alpha'')]) = Inl IndexError"
    by code_simp
  from r g show ?thesis
    by (simp add: save_markdown_def links_block_def)
qed

text \<open>
  C5: for a citation mapping whose old values are positions of the evidence map (from 1
  to its size), the source list is one line \<^verbatim>\<open>{new}. {url}\<close> for every pair of the
  mapping, in its order, where the URL is the key at index \<open>old - 1\<close> of the evidence
  map in insertion order, and the lines are joined with newlines.
\<close>

theorem generate_citation_links_lines:
  assumes "\<forall>p \<in> set citation_map. 1 \<le> fst p \<and> fst p \<le> length search_dic"
  shows "generate_citation_links citation_map (Some search_dic) =
          Inr (join newline
                 (map (\<lambda>p. str_nat (snd p) @ ''. '' @ fst (search_dic ! (fst p - 1))) citation_map))"
proof -
  from assms have "\<forall>p \<in> set citation_map. 1 \<le> fst p \<and> fst p \<le> length (map fst search_dic)"
    by simp
  from cited_links_ok [OF this] assms
  have "cited_links citation_map (map fst search_dic) =
          Inr (map (\<lambda>p. str_nat (snd p) @ ''. '' @ fst (search_dic ! (fst p - 1))) citation_map)"
    by (auto intro!: map_cong)
  then show ?thesis by (simp add: generate_citation_links_def)
qed

text \<open>
  The instance of the specification: the mapping 2 to 1, 5 to 2, 9 to 3 over the keys
  u1 to u9 gives the lines \<^verbatim>\<open>1. u2\<close>, \<^verbatim>\<open>2. u5\<close>, \<^verbatim>\<open>3. u9\<close>.
\<close>

theorem generate_citation_links_lines_witness:
  "list_all (\<lambda>p. 1 \<le> fst p \<and> fst p \<le> length nine_keys) [(2, 1), (5, 2), (9, 3)]
   \<and> generate_citation_links [(2, 1), (5, 2), (9, 3)] (Some nine_keys) =
       Inr (''1. u2'' @ newline @ ''2. u5'' @ newline @ ''3. u9'')"
proof -
  have h: "\<forall>p \<in> set [(2, 1), (5, 2), (9, 3)]. 1 \<le> fst p \<and> fst p \<le> length nine_keys"
    by (simp add: nine_keys_def)
  from generate_citation_links_lines [OF h] h show ?thesis
    by (simp add: nine_keys_def str_nat.simps digit_char_def)
qed

subsection \<open>Renumbering\<close>

text \<open>
  What the pattern of the citation markers matches, stated without the matcher: an
  opening bracket, an optional opening parenthesis, a non-empty run of digits, an
  optional closing parenthesis, a closing bracket. \<^verbatim>\<open>findall\<close> finds nothing exactly
  when the pattern matches at no position of the text.
\<close>

lemma is_digit_simps [simp]: "\<not> is_digit CHR ''(''" "\<not> is_digit CHR '')''" "\<not> is_digit CHR '']''" "\<not> is_digit CHR ''[''"
  by (simp_all add: is_digit_def)

lemma takeWhile_digits:
  assumes "\<forall>c \<in> set ds. is_digit c" and "t = [] \<or> \<not> is_digit (hd t)"
  shows "takeWhile is_digit (ds @ t) = ds" and "dropWhile is_digit (ds @ t) = t"
  using assms by (induction ds) (auto simp: takeWhile_eq_Nil_iff dropWhile_eq_self_iff hd_conv_nth neq_Nil_conv)

lemma opt_char_split: "\<exists>p. s = p @ opt_char c s \<and> (p = [] \<or> p = [c])"
proof (cases s)
  case Nil
  then show ?thesis by (simp add: opt_char_def)
next
  case (Cons x xs)
  show ?thesis
  proof (cases "x = c")
    case True
    with Cons have "s = [c] @ opt_char c s" by (simp add: opt_char_def)
    then show ?thesis by blast
  next
    case False
    with Cons have "s = [] @ opt_char c s" by (simp add: opt_char_def)
    then show ?thesis by blast
  qed
qed

lemma match_marker_iff:
  "match_marker s = Some (ds, rest) \<longleftrightarrow>
     (\<exists>lp rp. s = ''['' @ lp @ ds @ rp @ '']'' @ rest \<and> (lp = [] \<or> lp = ''('')
        \<and> (rp = [] \<or> rp = '')'') \<and> ds \<noteq> [] \<and> (\<forall>c \<in> set ds. is_digit c))"
  (is "?l \<longleftrightarrow> ?r")
proof
  assume ?l
  then obtain s1 where s: "s = CHR ''['' # s1"
    by (auto simp: match_marker_def split: list.splits if_splits)
  let ?s2 = "opt_char CHR ''('' s1"
  let ?s3 = "dropWhile is_digit ?s2"
  from \<open>?l\<close> s have ds: "ds = takeWhile is_digit ?s2" "ds \<noteq> []"
    and r: "opt_char CHR '')'' ?s3 = CHR '']'' # rest"
    by (auto simp: match_marker_def Let_def split: list.splits if_splits)
  obtain lp where lp: "s1 = lp @ ?s2" "lp = [] \<or> lp = ''(''"
    using opt_char_split [of s1 "CHR ''(''"] by blast
  obtain rp where rp: "?s3 = rp @ CHR '']'' # rest" "rp = [] \<or> rp = '')''"
    using opt_char_split [of ?s3 "CHR '')''"] r by auto
  have "?s2 = ds @ ?s3" using ds by simp
  with rp(1) have "?s2 = ds @ rp @ '']'' @ rest" by simp
  with lp(1) have "s1 = lp @ ds @ rp @ '']'' @ rest" by simp
  with s have "s = ''['' @ lp @ ds @ rp @ '']'' @ rest" by simp
  moreover from ds(1) have "\<forall>c \<in> set ds. is_digit c"
    by (auto dest: set_takeWhileD)
  ultimately show ?r using lp(2) rp(2) ds(2) by blast
next
  assume ?r
  then obtain lp rp where s: "s = ''['' @ lp @ ds @ rp @ '']'' @ rest"
    and lp: "lp = [] \<or> lp = ''(''" and rp: "rp = [] \<or> rp = '')''"
    and ds: "ds \<noteq> []" "\<forall>c \<in> set ds. is_digit c" by blast
  from ds obtain d ds' where d: "ds = d # ds'" "is_digit d" by (cases ds) auto
  then have "d \<noteq> CHR ''(''" by auto
  with lp d have s2: "opt_char CHR ''('' (lp @ ds @ rp @ '']'' @ rest) = ds @ rp @ '']'' @ rest"
    by (auto simp: opt_char_def)
  from rp have nd: "rp @ '']'' @ rest = [] \<or> \<not> is_digit (hd (rp @ '']'' @ rest))"
    by auto
  from rp have s3: "opt_char CHR '')'' (rp @ '']'' @ rest) = '']'' @ rest"
    by (auto simp: opt_char_def)
  show ?l
    using s ds s2 s3 takeWhile_digits [OF ds(2) nd]
    by (simp add: match_marker_def Let_def)
qed

lemma findall_empty_iff:
  "findall s = [] \<longleftrightarrow> (\<forall>pre t. s = pre @ t \<longrightarrow> match_marker t = None)"
proof (induction s rule: findall.induct)
  case 1
  then show ?case by (simp add: match_marker_def)
next
  case (2 c cs)
  show ?case
  proof (cases "match_marker (c # cs)")
    case None
    with 2 have ih: "findall cs = [] \<longleftrightarrow> (\<forall>pre t. cs = pre @ t \<longrightarrow> match_marker t = None)"
      by simp
    have "(\<forall>pre t. c # cs = pre @ t \<longrightarrow> match_marker t = None) \<longleftrightarrow>
          (\<forall>pre t. cs = pre @ t \<longrightarrow> match_marker t = None)"
    proof
      assume a: "\<forall>pre t. c # cs = pre @ t \<longrightarrow> match_marker t = None"
      show "\<forall>pre t. cs = pre @ t \<longrightarrow> match_marker t = None"
      proof (intro allI impI)
        fix pre t assume "cs = pre @ t"
        then have "c # cs = (c # pre) @ t" by simp
        with a show "match_marker t = None" by blast
      qed
    next
      assume a: "\<forall>pre t. cs = pre @ t \<longrightarrow> match_marker t = None"
      show "\<forall>pre t. c # cs = pre @ t \<longrightarrow> match_marker t = None"
      proof (intro allI impI)
        fix pre t assume e: "c # cs = pre @ t"
        show "match_marker t = None"
        proof (cases pre)
          case Nil
          with e None show ?thesis by simp
        next
          case (Cons x pre')
          with e have "cs = pre' @ t" by simp
          with a show ?thesis by blast
        qed
      qed
    qed
    with ih None show ?thesis by simp
  next
    case (Some p)
    then have "findall (c # cs) \<noteq> []" by (cases p) simp
    moreover from Some have "\<not> (\<forall>pre t. c # cs = pre @ t \<longrightarrow> match_marker t = None)"
      by (metis append_Nil option.distinct(1))
    ultimately show ?thesis by simp
  qed
qed

text \<open>
  The citation mapping of every text: its old values are the distinct marker values of
  the text in ascending order, its new values are 1 to K in that order.
\<close>

lemma renumber_citations_mapping:
  assumes "snd (renumber_citations text) = cm"
  shows "map fst cm = sort (remdups (map int_of_digits (findall text)))"
    and "map snd cm = [1..<Suc (length cm)]"
    and "sorted (map fst cm)" and "distinct (map fst cm)"
    and "set (map fst cm) = int_of_digits ` set (findall text)"
proof -
  let ?cs = "sort (remdups (map int_of_digits (findall text)))"
  from assms have cm: "cm = zip ?cs [1..<Suc (length ?cs)]"
    by (simp add: renumber_citations_def Let_def del: upt_Suc)
  have l: "length ?cs = length [1..<Suc (length ?cs)]"
    by (simp del: upt_Suc)
  from cm show 1: "map fst cm = ?cs"
    using map_fst_zip [OF l] by (simp del: upt_Suc)
  from cm have "length cm = length ?cs"
    by (simp del: upt_Suc)
  with cm show "map snd cm = [1..<Suc (length cm)]"
    using map_snd_zip [OF l] by (simp del: upt_Suc)
  from 1 show "sorted (map fst cm)" "distinct (map fst cm)"
    by simp_all
  from 1 show "set (map fst cm) = int_of_digits ` set (findall text)"
    by simp
qed

text \<open>The markers 5, 2, 5, 9 of the specification's example.\<close>

lemma renumber_citations_example:
  "renumber_citations ''[5] then [2], [(5)] and [9]'' =
     (''[2] then [1], [2] and [3]'', [(2, 1), (5, 2), (9, 3)])"
  by code_simp

lemma digit_char_props:
  assumes "d < 10"
  shows "digit_val (digit_char d) = d" and "is_digit (digit_char d)"
proof -
  from assms have "d = 0 \<or> d = 1 \<or> d = 2 \<or> d = 3 \<or> d = 4 \<or> d = 5 \<or> d = 6 \<or> d = 7 \<or> d = 8 \<or> d = 9"
    by arith
  then show "digit_val (digit_char d) = d" and "is_digit (digit_char d)"
    by (auto simp: digit_val_def digit_char_def is_digit_def)
qed

lemma str_nat_digits: "str_nat n \<noteq> [] \<and> (\<forall>c \<in> set (str_nat n). is_digit c)"
proof (induction n rule: str_nat.induct)
  case (1 n)
  show ?case
  proof (cases "n < 10")
    case True
    then show ?thesis by (simp add: str_nat.simps [of n] digit_char_props)
  next
    case False
    with 1 show ?thesis by (simp add: str_nat.simps [of n] digit_char_props)
  qed
qed

lemma int_of_digits_snoc: "int_of_digits (ds @ [c]) = 10 * int_of_digits ds + digit_val c"
  by (simp add: int_of_digits_def)

lemma int_of_digits_str_nat: "int_of_digits (str_nat n) = n"
proof (induction n rule: str_nat.induct)
  case (1 n)
  show ?case
  proof (cases "n < 10")
    case True
    then show ?thesis
      by (simp add: str_nat.simps [of n] int_of_digits_def digit_char_props)
  next
    case False
    with 1 have "int_of_digits (str_nat (n div 10)) = n div 10" by simp
    with False show ?thesis
      by (simp add: str_nat.simps [of n] int_of_digits_snoc digit_char_props)
  qed
qed

lemma str_nat_inject: "str_nat a = str_nat b \<longleftrightarrow> a = b"
  by (metis int_of_digits_str_nat)

lemma match_old_iff:
  assumes "old \<noteq> []" and "\<forall>c \<in> set old. is_digit c"
  shows "match_old old s = Some rest \<longleftrightarrow> match_marker s = Some (old, rest)"
proof -
  from assms obtain d old' where d: "old = d # old'" "is_digit d" by (cases old) auto
  then have dne: "d \<noteq> CHR ''(''" by auto
  have "match_old old s = Some rest \<longleftrightarrow>
     (\<exists>lp rp. s = ''['' @ lp @ old @ rp @ '']'' @ rest \<and> (lp = [] \<or> lp = ''('')
        \<and> (rp = [] \<or> rp = '')''))" (is "?l \<longleftrightarrow> ?r")
  proof
    assume ?l
    then obtain s1 where s: "s = CHR ''['' # s1"
      by (auto simp: match_old_def split: list.splits if_splits)
    let ?s2 = "opt_char CHR ''('' s1"
    let ?s3 = "drop (length old) ?s2"
    from \<open>?l\<close> s have t: "take (length old) ?s2 = old"
      and r: "opt_char CHR '')'' ?s3 = CHR '']'' # rest"
      by (auto simp: match_old_def Let_def split: list.splits if_splits)
    obtain lp where lp: "s1 = lp @ ?s2" "lp = [] \<or> lp = ''(''"
      using opt_char_split [of s1 "CHR ''(''"] by blast
    obtain rp where rp: "?s3 = rp @ CHR '']'' # rest" "rp = [] \<or> rp = '')''"
      using opt_char_split [of ?s3 "CHR '')''"] r by auto
    have "?s2 = take (length old) ?s2 @ ?s3" by simp
    with t have "?s2 = old @ ?s3" by simp
    with rp(1) have "?s2 = old @ rp @ '']'' @ rest" by simp
    with lp(1) have "s1 = lp @ old @ rp @ '']'' @ rest" by simp
    with s have "s = ''['' @ lp @ old @ rp @ '']'' @ rest" by simp
    then show ?r using lp(2) rp(2) by blast
  next
    assume ?r
    then obtain lp rp where s: "s = ''['' @ lp @ old @ rp @ '']'' @ rest"
      and lp: "lp = [] \<or> lp = ''(''" and rp: "rp = [] \<or> rp = '')''" by blast
    from lp d dne have s2: "opt_char CHR ''('' (lp @ old @ rp @ '']'' @ rest) = old @ rp @ '']'' @ rest"
      by (auto simp: opt_char_def)
    from rp have s3: "opt_char CHR '')'' (rp @ '']'' @ rest) = '']'' @ rest"
      by (auto simp: opt_char_def)
    show ?l
      using s s2 s3 by (simp add: match_old_def Let_def)
  qed
  with assms show ?thesis
    by (simp add: match_marker_iff)
qed

lemma match_old_marker:
  assumes "old \<noteq> []" and "\<forall>c \<in> set old. is_digit c"
  shows "match_old old s =
           (case match_marker s of
              None \<Rightarrow> None
            | Some (ds, rest) \<Rightarrow> if ds = old then Some rest else None)"
proof (cases "match_old old s")
  case None
  with match_old_iff [OF assms, of s] show ?thesis
    by (auto split: option.split)
next
  case (Some rest)
  with match_old_iff [OF assms, of s rest] show ?thesis
    by simp
qed

lemma sub_rewrite:
  "old \<noteq> [] \<Longrightarrow> \<forall>c \<in> set old. is_digit c \<Longrightarrow>
     sub old repl s = rewrite (\<lambda>ds. if ds = old then Some repl else None) s"
proof (induction old repl s rule: sub.induct)
  case (1 old repl)
  then show ?case by simp
next
  case (2 old repl c cs)
  note mo = match_old_marker [OF "2.prems", of "c # cs"]
  show ?case
  proof (cases "match_marker (c # cs)")
    case None
    with mo have "match_old old (c # cs) = None" by simp
    with 2 None show ?thesis by simp
  next
    case (Some p)
    obtain ds rest where p: "p = (ds, rest)" by (cases p)
    show ?thesis
    proof (cases "ds = old")
      case True
      with mo Some p have "match_old old (c # cs) = Some rest" by simp
      with 2 Some p True show ?thesis by simp
    next
      case False
      with mo Some p have "match_old old (c # cs) = None" by simp
      with 2 Some p False show ?thesis by simp
    qed
  qed
qed

lemma match_marker_other: "c \<noteq> CHR ''['' \<Longrightarrow> match_marker (c # cs) = None"
  by (simp add: match_marker_def)

lemma match_marker_head: "match_marker (c # cs) = Some p \<Longrightarrow> c = CHR ''[''"
  using match_marker_other [of c cs] by (cases "c = CHR ''[''") auto

lemma rewrite_plain: "CHR ''['' \<notin> set u \<Longrightarrow> rewrite f (u @ t) = u @ rewrite f t"
proof (induction u)
  case Nil
  then show ?case by simp
next
  case (Cons x u)
  then have "match_marker (x # u @ t) = None"
    using match_marker_other [of x "u @ t"] by auto
  with Cons show ?case by simp
qed

lemma head_segment_rewrite:
  "opens_with_bracket f \<Longrightarrow>
     takeWhile (\<lambda>x. x \<noteq> CHR ''['') (rewrite f s) = takeWhile (\<lambda>x. x \<noteq> CHR ''['') s"
proof (induction f s rule: rewrite.induct)
  case (1 f)
  then show ?case by simp
next
  case (2 f c cs)
  show ?case
  proof (cases "match_marker (c # cs)")
    case None
    with 2 show ?thesis by simp
  next
    case (Some p)
    obtain ds rest where p: "p = (ds, rest)" by (cases p)
    from Some have c: "c = CHR ''[''" by (rule match_marker_head)
    show ?thesis
    proof (cases "f ds")
      case None
      with Some p c show ?thesis by simp
    next
      case (Some r)
      with "2.prems" obtain r' where "r = CHR ''['' # r'"
        by (auto simp: opens_with_bracket_def)
      with Some \<open>match_marker (c # cs) = Some p\<close> p c show ?thesis by simp
    qed
  qed
qed

lemma marker_body:
  assumes "match_marker s = Some (ds, rest)"
  shows "\<exists>body. s = CHR ''['' # body @ rest \<and> CHR ''['' \<notin> set body
           \<and> (\<forall>t. match_marker (CHR ''['' # body @ t) = Some (ds, t))"
proof -
  from assms obtain lp rp where s: "s = ''['' @ lp @ ds @ rp @ '']'' @ rest"
    and lp: "lp = [] \<or> lp = ''(''" and rp: "rp = [] \<or> rp = '')''"
    and ds: "ds \<noteq> []" "\<forall>c \<in> set ds. is_digit c"
    unfolding match_marker_iff by blast
  let ?body = "lp @ ds @ rp @ '']''"
  from s have "s = CHR ''['' # ?body @ rest" by simp
  moreover from lp rp ds(2) have "CHR ''['' \<notin> set ?body" by auto
  moreover have "match_marker (CHR ''['' # ?body @ t) = Some (ds, t)" for t
  proof -
    have "CHR ''['' # ?body @ t = ''['' @ lp @ ds @ rp @ '']'' @ t" by simp
    with lp rp ds show ?thesis unfolding match_marker_iff by blast
  qed
  ultimately show ?thesis by blast
qed

lemma no_match_stable:
  assumes "match_marker (c # cs) = None" and "opens_with_bracket f"
  shows "match_marker (c # rewrite f cs) = None"
proof (cases "c = CHR ''[''")
  case False
  then show ?thesis by (rule match_marker_other)
next
  case True
  let ?P = "\<lambda>x. x \<noteq> CHR ''[''"
  show ?thesis
  proof (rule ccontr)
    assume "match_marker (c # rewrite f cs) \<noteq> None"
    then obtain ds rest where "match_marker (c # rewrite f cs) = Some (ds, rest)" by auto
    from marker_body [OF this] True obtain body
      where b: "rewrite f cs = body @ rest" "CHR ''['' \<notin> set body"
        and m: "\<forall>t. match_marker (CHR ''['' # body @ t) = Some (ds, t)" by auto
    from b(2) have "takeWhile ?P (body @ rest) = body @ takeWhile ?P rest"
      by (intro takeWhile_append2) auto
    with b(1) have "takeWhile ?P (rewrite f cs) = body @ takeWhile ?P rest"
      by simp
    with head_segment_rewrite [OF assms(2), of cs]
    have "takeWhile ?P cs = body @ takeWhile ?P rest" by simp
    then have "cs = body @ takeWhile ?P rest @ dropWhile ?P cs"
      by (metis append.assoc takeWhile_dropWhile_id)
    with m True have "match_marker (c # cs) = Some (ds, takeWhile ?P rest @ dropWhile ?P cs)"
      by metis
    with assms(1) show False by simp
  qed
qed

lemma bracketed_opens: "bracketed f \<Longrightarrow> opens_with_bracket f"
  unfolding bracketed_def opens_with_bracket_def by (metis append_Cons append_Nil)

lemma match_plain_marker:
  assumes "ds \<noteq> []" and "\<forall>c \<in> set ds. is_digit c"
  shows "match_marker (''['' @ ds @ '']'' @ t) = Some (ds, t)"
proof -
  have "''['' @ ds @ '']'' @ t = ''['' @ [] @ ds @ [] @ '']'' @ t" by simp
  with assms show ?thesis unfolding match_marker_iff by blast
qed

lemma rewrite_plain_marker:
  assumes "ds \<noteq> []" and "\<forall>c \<in> set ds. is_digit c"
  shows "rewrite g (''['' @ ds @ '']'' @ t) =
           (case g ds of None \<Rightarrow> ''['' @ ds @ '']'' | Some r \<Rightarrow> r) @ rewrite g t"
proof -
  have m: "match_marker (CHR ''['' # ds @ '']'' @ t) = Some (ds, t)"
    using match_plain_marker [OF assms, of t] by simp
  have "CHR ''['' \<notin> set (ds @ '']'')" using assms(2) by auto
  from rewrite_plain [OF this, of g t] have "rewrite g (ds @ '']'' @ t) = ds @ '']'' @ rewrite g t"
    by simp
  with m show ?thesis by (simp split: option.split)
qed

lemma rewrite_rewrite:
  assumes "bracketed f"
  shows "rewrite g (rewrite f s) =
           rewrite (\<lambda>ds. case f ds of None \<Rightarrow> g ds | Some r \<Rightarrow> Some (rewrite g r)) s"
proof (induction s rule: length_induct)
  case (1 s)
  let ?h = "\<lambda>ds. case f ds of None \<Rightarrow> g ds | Some r \<Rightarrow> Some (rewrite g r)"
  show ?case
  proof (cases s)
    case Nil
    then show ?thesis by simp
  next
    case (Cons c cs)
    from 1 Cons have ih: "length t \<le> length cs \<Longrightarrow> rewrite g (rewrite f t) = rewrite ?h t" for t
      by simp
    show ?thesis
    proof (cases "match_marker (c # cs)")
      case None
      from no_match_stable [OF None bracketed_opens [OF assms]]
      have "match_marker (c # rewrite f cs) = None" .
      with None Cons ih [of cs] show ?thesis by simp
    next
      case (Some p)
      obtain ds rest where p: "p = (ds, rest)" by (cases p)
      from Some p have m: "match_marker (c # cs) = Some (ds, rest)" by simp
      from match_marker_shorter [OF m] have len: "length rest \<le> length cs" by simp
      from marker_body [OF m] obtain body
        where b: "cs = body @ rest" "CHR ''['' \<notin> set body" and c: "c = CHR ''[''"
          and mb: "\<forall>t. match_marker (CHR ''['' # body @ t) = Some (ds, t)" by auto
      show ?thesis
      proof (cases "f ds")
        case (Some r)
        with assms obtain ds' where r: "r = ''['' @ ds' @ '']''" "ds' \<noteq> []" "\<forall>c \<in> set ds'. is_digit c"
          unfolding bracketed_def by blast
        have "rewrite g (r @ rewrite f rest) = rewrite g r @ rewrite g (rewrite f rest)"
          using rewrite_plain_marker [OF r(2,3), of g "rewrite f rest"]
            rewrite_plain_marker [OF r(2,3), of g "[]"] r(1)
          by simp
        with Some m Cons ih [OF len] show ?thesis by simp
      next
        case None
        have fo: "rewrite f (c # cs) = CHR ''['' # body @ rewrite f rest"
          using None m b c rewrite_plain [OF b(2), of f rest] by simp
        have ho: "rewrite ?h cs = body @ rewrite ?h rest"
          using b rewrite_plain [OF b(2), of ?h rest] by simp
        from mb have mo: "match_marker (CHR ''['' # body @ rewrite f rest) = Some (ds, rewrite f rest)"
          by blast
        show ?thesis
        proof (cases "g ds")
          case None
          have "rewrite g (CHR ''['' # body @ rewrite f rest)
                  = CHR ''['' # body @ rewrite g (rewrite f rest)"
            using mo None rewrite_plain [OF b(2), of g "rewrite f rest"] by simp
          with fo ho m None \<open>f ds = None\<close> Cons c ih [OF len] show ?thesis by simp
        next
          case (Some r')
          have "rewrite g (CHR ''['' # body @ rewrite f rest) = r' @ rewrite g (rewrite f rest)"
            using mo Some by simp
          with fo m Some \<open>f ds = None\<close> Cons c ih [OF len] show ?thesis by simp
        qed
      qed
    qed
  qed
qed

lemma bracketed_marker_image: "bracketed (marker_image m)"
  unfolding bracketed_def marker_image_def bracket_def
  using str_nat_digits by (auto split: if_splits)

lemma rewrite_none: "rewrite (\<lambda>ds. None) s = s"
  by (induction "\<lambda>ds::string. None :: string option" s rule: rewrite.induct)
     (auto split: option.split)

lemma rewrite_bracket:
  "rewrite (\<lambda>ds. if ds = str_nat old then Some repl else None) (bracket n) =
     (if n = old then repl else bracket n)"
proof -
  have "rewrite (\<lambda>ds. if ds = str_nat old then Some repl else None) (''['' @ str_nat n @ '']'' @ [])
          = (case (if str_nat n = str_nat old then Some repl else None) of
               None \<Rightarrow> ''['' @ str_nat n @ '']'' | Some r \<Rightarrow> r) @ rewrite (\<lambda>ds. if ds = str_nat old then Some repl else None) []"
    using str_nat_digits [of n] by (intro rewrite_plain_marker) auto
  then show ?thesis
    by (simp add: bracket_def str_nat_inject)
qed

lemma sub_citation_step:
  assumes "m old = None" and "old \<notin> ran m"
  shows "sub_citation (old, new) (rewrite (marker_image m) s) =
           rewrite (marker_image (m(old \<mapsto> new))) s"
proof -
  let ?g = "\<lambda>ds. if ds = str_nat old then Some (bracket new) else None"
  have "sub_citation (old, new) (rewrite (marker_image m) s)
          = sub (str_nat old) (bracket new) (rewrite (marker_image m) s)"
    by (simp add: sub_citation_def bracket_def)
  also have "\<dots> = rewrite ?g (rewrite (marker_image m) s)"
    using str_nat_digits [of old] by (intro sub_rewrite) auto
  also have "\<dots> = rewrite (\<lambda>ds. case marker_image m ds of None \<Rightarrow> ?g ds
                                     | Some r \<Rightarrow> Some (rewrite ?g r)) s"
    by (rule rewrite_rewrite [OF bracketed_marker_image])
  also have "(\<lambda>ds. case marker_image m ds of None \<Rightarrow> ?g ds | Some r \<Rightarrow> Some (rewrite ?g r))
               = marker_image (m(old \<mapsto> new))"
  proof
    fix ds
    show "(case marker_image m ds of None \<Rightarrow> ?g ds | Some r \<Rightarrow> Some (rewrite ?g r))
            = marker_image (m(old \<mapsto> new)) ds"
    proof (cases "ds = str_nat (int_of_digits ds)")
      case False
      then have "ds \<noteq> str_nat old"
        by (metis int_of_digits_str_nat)
      with False show ?thesis by (simp add: marker_image_def)
    next
      case True
      show ?thesis
      proof (cases "m (int_of_digits ds)")
        case None
        with True show ?thesis
          by (auto simp: marker_image_def int_of_digits_str_nat)
      next
        case (Some n)
        with assms have "n \<noteq> old" "int_of_digits ds \<noteq> old"
          by (auto simp: ran_def)
        with True Some show ?thesis
          by (simp add: marker_image_def rewrite_bracket)
      qed
    qed
  qed
  finally show ?thesis .
qed

lemma record_pair_simp: "record_pair (old, new) m = m(old \<mapsto> new)"
  by (simp add: record_pair_def)

lemma fold_sub_citation:
  "no_chain m cm \<Longrightarrow>
     fold sub_citation cm (rewrite (marker_image m) s) =
       rewrite (marker_image (fold record_pair cm m)) s"
proof (induction cm arbitrary: m)
  case Nil
  then show ?case by simp
next
  case (Cons p cm)
  obtain old new where p: "p = (old, new)" by (cases p)
  with Cons.prems have a: "m old = None" "old \<notin> ran m" and b: "no_chain (m(old \<mapsto> new)) cm"
    by simp_all
  have "fold sub_citation (p # cm) (rewrite (marker_image m) s)
          = fold sub_citation cm (sub_citation (old, new) (rewrite (marker_image m) s))"
    using p by simp
  also have "\<dots> = fold sub_citation cm (rewrite (marker_image (m(old \<mapsto> new))) s)"
    by (simp only: sub_citation_step [OF a])
  also have "\<dots> = rewrite (marker_image (fold record_pair cm (m(old \<mapsto> new)))) s"
    using b by (rule Cons.IH)
  also have "fold record_pair cm (m(old \<mapsto> new)) = fold record_pair (p # cm) m"
    unfolding p by (simp only: fold_simps record_pair_simp)
  finally show ?case .
qed

lemma map_add_upd_left:
  assumes "n k = None"
  shows "m(k \<mapsto> v) ++ n = (m ++ n)(k \<mapsto> v)"
proof
  fix x
  show "(m(k \<mapsto> v) ++ n) x = ((m ++ n)(k \<mapsto> v)) x"
    using assms by (cases "x = k") (simp_all add: map_add_def split: option.split)
qed

lemma fold_record_pair:
  "distinct (map fst cm) \<Longrightarrow> fold record_pair cm m = m ++ map_of cm"
proof (induction cm arbitrary: m)
  case Nil
  then show ?case by simp
next
  case (Cons p cm)
  obtain k v where p: "p = (k, v)" by (cases p)
  with Cons.prems have k: "k \<notin> fst ` set cm" and d: "distinct (map fst cm)" by auto
  from k have n: "map_of cm k = None" by (simp add: map_of_eq_None_iff)
  have "fold record_pair (p # cm) m = fold record_pair cm (m(k \<mapsto> v))"
    unfolding p by (simp only: fold_simps record_pair_simp)
  also have "\<dots> = m(k \<mapsto> v) ++ map_of cm"
    using d by (rule Cons.IH)
  also have "\<dots> = (m ++ map_of cm)(k \<mapsto> v)"
    using n by (rule map_add_upd_left)
  also have "\<dots> = m ++ map_of (p # cm)"
    unfolding p by simp
  finally show ?case .
qed

lemma no_chain_zip:
  assumes "sorted cs" and "distinct cs" and "\<forall>c \<in> set cs. k \<le> c"
    and "ran m \<subseteq> {..<k}" and "dom m \<inter> set cs = {}"
  shows "no_chain m (zip cs [k..<k + length cs])"
  using assms
proof (induction cs arbitrary: k m)
  case Nil
  then show ?case by simp
next
  case (Cons c cs)
  have "[k..<k + length (c # cs)] = k # [Suc k..<Suc k + length cs]"
    by (simp add: upt_conv_Cons del: upt_Suc)
  then have z: "zip (c # cs) [k..<k + length (c # cs)] = (c, k) # zip cs [Suc k..<Suc k + length cs]"
    by (simp only: zip_Cons_Cons)
  from Cons.prems have 1: "m c = None" by auto
  from Cons.prems have kc: "k \<le> c" by simp
  with Cons.prems(4) have 2: "c \<notin> ran m" by auto
  have "no_chain (m(c \<mapsto> k)) (zip cs [Suc k..<Suc k + length cs])"
  proof (rule Cons.IH)
    from Cons.prems show "sorted cs" "distinct cs" by simp_all
    show "\<forall>c' \<in> set cs. Suc k \<le> c'"
    proof
      fix c' assume "c' \<in> set cs"
      with Cons.prems(1,2) have "c \<le> c'" "c \<noteq> c'" by auto
      with kc show "Suc k \<le> c'" by arith
    qed
    have "ran (m(c \<mapsto> k)) \<subseteq> insert k (ran m)"
      by (auto simp: ran_def split: if_splits)
    with Cons.prems(4) show "ran (m(c \<mapsto> k)) \<subseteq> {..<Suc k}"
      by auto
    from Cons.prems(2,5) show "dom (m(c \<mapsto> k)) \<inter> set cs = {}" by auto
  qed
  with 1 2 show ?case unfolding z by simp
qed

lemma marker_image_empty: "marker_image Map.empty = (\<lambda>ds. None)"
  by (simp add: marker_image_def fun_eq_iff)

text \<open>
  The loop of rewrites as one pass: when 0 is not a marker value of the text, the text
  returned is the text in which every marker that is the decimal text of its value is
  replaced by its new value in brackets, and all else is unchanged.
\<close>

theorem renumber_citations_rewrite:
  assumes "0 \<notin> int_of_digits ` set (findall text)"
  shows "fst (renumber_citations text) =
           rewrite (marker_image (map_of (snd (renumber_citations text)))) text"
proof -
  let ?cs = "sort (remdups (map int_of_digits (findall text)))"
  let ?cm = "zip ?cs [1..<1 + length ?cs]"
  have cm: "renumber_citations text = (fold sub_citation ?cm text, ?cm)"
    by (simp add: renumber_citations_def Let_def del: upt_Suc)
  have pos: "\<forall>c \<in> set ?cs. 1 \<le> c"
  proof
    fix c assume "c \<in> set ?cs"
    with assms have "c \<noteq> 0" by auto
    then show "1 \<le> c" by simp
  qed
  have nc: "no_chain Map.empty ?cm"
    using pos by (intro no_chain_zip) simp_all
  from fold_sub_citation [OF nc, of "text"]
  have "fold sub_citation ?cm text = rewrite (marker_image (fold record_pair ?cm Map.empty)) text"
    by (simp add: marker_image_empty rewrite_none)
  moreover have "distinct (map fst ?cm)"
    by (simp del: upt_Suc)
  then have "fold record_pair ?cm Map.empty = map_of ?cm"
    using fold_record_pair [of ?cm Map.empty] by simp
  ultimately show ?thesis using cm by simp
qed

lemma findall_plain: "CHR ''['' \<notin> set u \<Longrightarrow> findall (u @ t) = findall t"
proof (induction u)
  case Nil
  then show ?case by simp
next
  case (Cons x u)
  then have "match_marker (x # u @ t) = None"
    using match_marker_other [of x "u @ t"] by auto
  with Cons show ?case by simp
qed

lemma findall_marker:
  assumes "match_marker (c # cs) = Some (ds, rest)"
  shows "findall (c # cs) = ds # findall rest" and "findall cs = findall rest"
proof -
  from assms show "findall (c # cs) = ds # findall rest" by simp
  from marker_body [OF assms] obtain body where "cs = body @ rest" "CHR ''['' \<notin> set body"
    by auto
  then show "findall cs = findall rest" by (simp add: findall_plain)
qed

lemma rewrite_cong:
  "(\<forall>ds \<in> set (findall s). f ds = g ds) \<Longrightarrow> rewrite f s = rewrite g s"
proof (induction s rule: length_induct)
  case (1 s)
  show ?case
  proof (cases s)
    case Nil
    then show ?thesis by simp
  next
    case (Cons c cs)
    show ?thesis
    proof (cases "match_marker (c # cs)")
      case None
      with 1 Cons show ?thesis by simp
    next
      case (Some p)
      obtain ds rest where p: "p = (ds, rest)" by (cases p)
      with Some have m: "match_marker (c # cs) = Some (ds, rest)" by simp
      note fa = findall_marker [OF m]
      from match_marker_shorter [OF m] have "length rest < length s" using Cons by simp
      moreover from "1.prems" Cons fa have "\<forall>ds \<in> set (findall rest). f ds = g ds" by simp
      ultimately have r: "rewrite f rest = rewrite g rest" using "1.IH" by blast
      from "1.prems" Cons fa have "\<forall>ds \<in> set (findall cs). f ds = g ds" by simp
      with "1.IH" Cons have t: "rewrite f cs = rewrite g cs" by simp
      from "1.prems" Cons fa have "f ds = g ds" by simp
      with m r t Cons show ?thesis by (simp split: option.split)
    qed
  qed
qed

lemma findall_rewrite:
  assumes "bracketed f"
  shows "findall (rewrite f s) =
           map (\<lambda>ds. case f ds of None \<Rightarrow> ds | Some r \<Rightarrow> butlast (tl r)) (findall s)"
proof (induction s rule: length_induct)
  case (1 s)
  let ?d = "\<lambda>ds. case f ds of None \<Rightarrow> ds | Some r \<Rightarrow> butlast (tl r)"
  show ?case
  proof (cases s)
    case Nil
    then show ?thesis by simp
  next
    case (Cons c cs)
    from 1 Cons have ih: "length t \<le> length cs \<Longrightarrow> findall (rewrite f t) = map ?d (findall t)" for t
      by simp
    show ?thesis
    proof (cases "match_marker (c # cs)")
      case None
      from no_match_stable [OF None bracketed_opens [OF assms]]
      have "match_marker (c # rewrite f cs) = None" .
      with None Cons ih [of cs] show ?thesis by simp
    next
      case (Some p)
      obtain ds rest where p: "p = (ds, rest)" by (cases p)
      from Some p have m: "match_marker (c # cs) = Some (ds, rest)" by simp
      from match_marker_shorter [OF m] have len: "length rest \<le> length cs" by simp
      from marker_body [OF m] obtain body
        where b: "cs = body @ rest" "CHR ''['' \<notin> set body" and c: "c = CHR ''[''"
          and mb: "\<forall>t. match_marker (CHR ''['' # body @ t) = Some (ds, t)" by auto
      show ?thesis
      proof (cases "f ds")
        case (Some r)
        with assms obtain ds' where r: "r = ''['' @ ds' @ '']''" "ds' \<noteq> []" "\<forall>c \<in> set ds'. is_digit c"
          unfolding bracketed_def by blast
        from match_plain_marker [OF r(2,3), of "rewrite f rest"] r(1)
        have "findall (r @ rewrite f rest) = ds' # findall (rewrite f rest)"
          by simp
        moreover from r(1) have "butlast (tl r) = ds'" by simp
        ultimately show ?thesis using Some m Cons ih [OF len] by simp
      next
        case None
        have fo: "rewrite f (c # cs) = CHR ''['' # body @ rewrite f rest"
          using None m b c rewrite_plain [OF b(2), of f rest] by simp
        from mb have "match_marker (CHR ''['' # body @ rewrite f rest) = Some (ds, rewrite f rest)"
          by blast
        then have "findall (CHR ''['' # body @ rewrite f rest) = ds # findall (rewrite f rest)"
          by simp
        with fo None m Cons ih [OF len] show ?thesis by simp
      qed
    qed
  qed
qed

lemma map_of_citation_map:
  assumes "snd (renumber_citations s) = cm" and "ds \<in> set (findall s)"
  shows "\<exists>n. map_of cm (int_of_digits ds) = Some n \<and> 1 \<le> n \<and> n \<le> length cm"
proof -
  note mp = renumber_citations_mapping [OF assms(1)]
  from assms(2) mp(5) have "int_of_digits ds \<in> fst ` set cm" by auto
  then obtain n where n: "(int_of_digits ds, n) \<in> set cm" by auto
  with mp(4) have "map_of cm (int_of_digits ds) = Some n" by simp
  moreover from n have "n \<in> set (map snd cm)" by force
  with mp(2) have "1 \<le> n \<and> n \<le> length cm" by auto
  ultimately show ?thesis by blast
qed

text \<open>
  For a text whose markers are positive integers without leading zeros, every marker is
  replaced by its new value in brackets, plain or parenthesised as it was; the markers
  of the text returned are the new values, in the order of the text.
\<close>

theorem renumber_citations_canonical:
  assumes "canonical_markers s" and "renumber_citations s = (out, cm)"
  shows "out = rewrite (\<lambda>ds. map_option bracket (map_of cm (int_of_digits ds))) s"
    and "findall out = map (\<lambda>ds. str_nat (the (map_of cm (int_of_digits ds)))) (findall s)"
proof -
  from assms(1) have can: "\<forall>ds \<in> set (findall s). ds = str_nat (int_of_digits ds) \<and> int_of_digits ds \<noteq> 0"
    by (simp add: canonical_markers_def list_all_iff)
  then have "0 \<notin> int_of_digits ` set (findall s)" by force
  from renumber_citations_rewrite [OF this] assms(2)
  have out: "out = rewrite (marker_image (map_of cm)) s" by simp
  have "\<forall>ds \<in> set (findall s).
          marker_image (map_of cm) ds = map_option bracket (map_of cm (int_of_digits ds))"
    using can by (simp add: marker_image_def)
  from rewrite_cong [OF this] out
  show "out = rewrite (\<lambda>ds. map_option bracket (map_of cm (int_of_digits ds))) s" by simp
  have cm: "snd (renumber_citations s) = cm" using assms(2) by simp
  have "findall out =
          map (\<lambda>ds. case marker_image (map_of cm) ds of None \<Rightarrow> ds | Some r \<Rightarrow> butlast (tl r)) (findall s)"
    unfolding out by (rule findall_rewrite [OF bracketed_marker_image])
  also have "\<dots> = map (\<lambda>ds. str_nat (the (map_of cm (int_of_digits ds)))) (findall s)"
  proof (rule map_cong [OF refl])
    fix ds assume d: "ds \<in> set (findall s)"
    from map_of_citation_map [OF cm d] obtain n where "map_of cm (int_of_digits ds) = Some n"
      by blast
    with can d show "(case marker_image (map_of cm) ds of None \<Rightarrow> ds | Some r \<Rightarrow> butlast (tl r))
            = str_nat (the (map_of cm (int_of_digits ds)))"
      by (simp add: marker_image_def bracket_def)
  qed
  finally show "findall out = map (\<lambda>ds. str_nat (the (map_of cm (int_of_digits ds)))) (findall s)" .
qed

lemma map_of_zip_same: "n \<in> set xs \<Longrightarrow> map_of (zip xs xs) n = Some n"
  by (induction xs) auto

text \<open>
  For such a text, renumbering the text returned changes nothing and gives the identity
  mapping on 1 to K.
\<close>

theorem renumber_citations_idempotent:
  assumes "canonical_markers s" and "renumber_citations s = (out, cm)"
  shows "renumber_citations out = (out, zip [1..<Suc (length cm)] [1..<Suc (length cm)])"
proof -
  let ?K = "length cm"
  let ?id = "zip [1..<Suc ?K] [1..<Suc ?K]"
  let ?new = "\<lambda>ds. the (map_of cm (int_of_digits ds))"
  have cm: "snd (renumber_citations s) = cm" using assms(2) by simp
  note mp = renumber_citations_mapping [OF cm]
  note rc = renumber_citations_canonical [OF assms]
  have new: "map_of cm (int_of_digits ds) = Some (?new ds) \<and> 1 \<le> ?new ds \<and> ?new ds \<le> ?K"
    if "ds \<in> set (findall s)" for ds
    using map_of_citation_map [OF cm that] by auto
  have vals: "map int_of_digits (findall out) = map ?new (findall s)"
    by (simp add: rc(2) int_of_digits_str_nat comp_def)
  have "set (map ?new (findall s)) = {1..?K}"
  proof
    show "set (map ?new (findall s)) \<subseteq> {1..?K}"
      using new by auto
    show "{1..?K} \<subseteq> set (map ?new (findall s))"
    proof
      fix n assume "n \<in> {1..?K}"
      with mp(2) have "n \<in> set (map snd cm)" by auto
      then obtain c where c: "(c, n) \<in> set cm" by auto
      with mp(4) have mc: "map_of cm c = Some n" by simp
      from c have "c \<in> set (map fst cm)" by force
      with mp(5) obtain ds where "ds \<in> set (findall s)" "int_of_digits ds = c" by auto
      with mc show "n \<in> set (map ?new (findall s))" by force
    qed
  qed
  with vals have "set (sort (remdups (map int_of_digits (findall out)))) = set [1..<Suc ?K]"
    by auto
  then have cs': "sort (remdups (map int_of_digits (findall out))) = [1..<Suc ?K]"
    by (intro sorted_distinct_set_unique) (simp_all del: upt_Suc)
  then have cm': "snd (renumber_citations out) = ?id"
    by (simp add: renumber_citations_def Let_def del: upt_Suc)
  have "0 \<notin> int_of_digits ` set (findall out)"
  proof
    assume "0 \<in> int_of_digits ` set (findall out)"
    then have "0 \<in> set (map int_of_digits (findall out))" by simp
    with vals have "0 \<in> set (map ?new (findall s))" by simp
    then obtain ds where "ds \<in> set (findall s)" "?new ds = 0" by auto
    with new [of ds] show False by simp
  qed
  from renumber_citations_rewrite [OF this] cm'
  have fst_out: "fst (renumber_citations out) = rewrite (marker_image (map_of ?id)) out" by simp
  define G where "G = marker_image (map_of ?id)"
  have G: "rewrite G (bracket n) = bracket n" if "1 \<le> n" "n \<le> ?K" for n
  proof -
    from that have "n \<in> set [1..<Suc ?K]" by (simp del: upt_Suc)
    then have "map_of ?id n = Some n" by (rule map_of_zip_same)
    then have "G (str_nat n) = Some (bracket n)"
      by (simp add: G_def marker_image_def int_of_digits_str_nat del: upt_Suc)
    with rewrite_plain_marker [of "str_nat n" G "[]"] str_nat_digits [of n]
    show ?thesis by (simp add: bracket_def)
  qed
  from fst_out have "fst (renumber_citations out) = rewrite G out"
    by (simp only: G_def)
  also have "\<dots> = rewrite G (rewrite (\<lambda>ds. map_option bracket (map_of cm (int_of_digits ds))) s)"
    using rc(1) by simp
  also have "\<dots> = rewrite (\<lambda>ds. case map_option bracket (map_of cm (int_of_digits ds)) of
                                    None \<Rightarrow> G ds
                                  | Some r \<Rightarrow> Some (rewrite G r)) s"
    by (rule rewrite_rewrite) (auto simp: bracketed_def bracket_def str_nat_digits)
  also have "\<dots> = rewrite (\<lambda>ds. map_option bracket (map_of cm (int_of_digits ds))) s"
  proof (rule rewrite_cong, rule ballI)
    fix ds assume d: "ds \<in> set (findall s)"
    from new [OF d] have n: "map_of cm (int_of_digits ds) = Some (?new ds)"
      and "1 \<le> ?new ds" "?new ds \<le> ?K" by auto
    from G [OF this(2,3)] n
    show "(case map_option bracket (map_of cm (int_of_digits ds)) of
                    None \<Rightarrow> G ds
                  | Some r \<Rightarrow> Some (rewrite G r))
                 = map_option bracket (map_of cm (int_of_digits ds))"
      by (cases "map_of cm (int_of_digits ds)") simp_all
  qed
  also have "\<dots> = out" using rc(1) by simp
  finally have "fst (renumber_citations out) = out" .
  with cm' show ?thesis by (simp add: prod_eq_iff)
qed

text \<open>
  C4 at texts where it fails. The mapping is as specified for every text, and for a text
  whose markers are positive integers without leading zeros every marker is rewritten
  (see above). The marker \<^verbatim>\<open>[05]\<close> is found and its value 5 enters the mapping as
  5 to 1, but the pattern of the rewrite is built from \<^verbatim>\<open>str(5)\<close> and does not match
  \<^verbatim>\<open>[05]\<close>: the marker stays, while \<^verbatim>\<open>[7]\<close> becomes \<^verbatim>\<open>[2]\<close>. With the marker
  values 0 and 1 the rewrites chain: \<^verbatim>\<open>[0]\<close> becomes \<^verbatim>\<open>[1]\<close>, and then every
  \<^verbatim>\<open>[1]\<close> becomes \<^verbatim>\<open>[2]\<close>.
\<close>

theorem renumber_citations_leading_zero:
  "renumber_citations ''See [05] and [7].'' = (''See [05] and [2].'', [(5, 1), (7, 2)])
   \<and> renumber_citations ''[0] [1]'' = (''[2] [2]'', [(0, 1), (1, 2)])"
  by code_simp

text \<open>
  The text returned need not be dense: for \<^verbatim>\<open>See [05] and [7].\<close> it is
  \<^verbatim>\<open>See [05] and [2].\<close>, with the marker values 2 and 5, and a second run renumbers
  it again.
\<close>

lemma second_run_after_leading_zero:
  "fst (renumber_citations ''See [05] and [7].'') = ''See [05] and [2].''
   \<and> \<not> dense_markers ''See [05] and [2].''
   \<and> renumber_citations ''See [05] and [2].'' = (''See [05] and [1].'', [(2, 1), (5, 2)])"
  by code_simp

text \<open>
  The loop of rewrites as one pass for every text and every list of pairs: each
  replacement is a plain marker, and the decimal text of every old value has one.
\<close>

lemma sub_citation_after:
  assumes "bracketed f"
  shows "sub_citation p (rewrite f s) = rewrite (after_sub p f) s"
proof -
  let ?g = "only_marker (str_nat (fst p)) (bracket (snd p))"
  have g: "?g = (\<lambda>ds. if ds = str_nat (fst p) then Some (bracket (snd p)) else None)"
    by (simp add: only_marker_def fun_eq_iff)
  have "sub_citation p (rewrite f s) = sub (str_nat (fst p)) (bracket (snd p)) (rewrite f s)"
    by (simp add: sub_citation_def bracket_def)
  also have "\<dots> = rewrite ?g (rewrite f s)"
    unfolding g using str_nat_digits [of "fst p"] by (intro sub_rewrite) auto
  also have "\<dots> = rewrite (\<lambda>ds. case f ds of None \<Rightarrow> ?g ds | Some r \<Rightarrow> Some (rewrite ?g r)) s"
    by (rule rewrite_rewrite [OF assms])
  also have "(\<lambda>ds. case f ds of None \<Rightarrow> ?g ds | Some r \<Rightarrow> Some (rewrite ?g r)) = after_sub p f"
    by (simp add: after_sub_def fun_eq_iff)
  finally show ?thesis .
qed

lemma rewrite_marker_alone:
  assumes "ds \<noteq> []" and "\<forall>c \<in> set ds. is_digit c"
  shows "rewrite g (''['' @ ds @ '']'') = (case g ds of None \<Rightarrow> ''['' @ ds @ '']'' | Some r \<Rightarrow> r)"
  using rewrite_plain_marker [OF assms, of g "[]"] by simp

lemma bracketed_after_sub:
  assumes "bracketed f"
  shows "bracketed (after_sub p f)"
  unfolding bracketed_def
proof (intro allI impI)
  fix ds r assume a: "after_sub p f ds = Some r"
  let ?g = "only_marker (str_nat (fst p)) (bracket (snd p))"
  have new: "\<exists>ds'. bracket (snd p) = ''['' @ ds' @ '']'' \<and> ds' \<noteq> [] \<and> (\<forall>c \<in> set ds'. is_digit c)"
    using str_nat_digits [of "snd p"] unfolding bracket_def by blast
  show "\<exists>ds'. r = ''['' @ ds' @ '']'' \<and> ds' \<noteq> [] \<and> (\<forall>c \<in> set ds'. is_digit c)"
  proof (cases "f ds")
    case None
    with a have "r = bracket (snd p)"
      by (simp add: after_sub_def only_marker_def split: if_splits)
    with new show ?thesis by simp
  next
    case (Some r0)
    with assms obtain d0 where r0: "r0 = ''['' @ d0 @ '']''" "d0 \<noteq> []" "\<forall>c \<in> set d0. is_digit c"
      unfolding bracketed_def by blast
    from a Some have "r = rewrite ?g r0" by (simp add: after_sub_def)
    then have "r = rewrite ?g (''['' @ d0 @ '']'')" by (simp only: r0(1))
    then have "r = (case ?g d0 of None \<Rightarrow> ''['' @ d0 @ '']'' | Some r' \<Rightarrow> r')"
      by (simp only: rewrite_marker_alone [OF r0(2,3)])
    then have r: "r = (case ?g d0 of None \<Rightarrow> r0 | Some r' \<Rightarrow> r')"
      by (simp only: r0(1))
    show ?thesis
    proof (cases "?g d0")
      case None
      with r r0 show ?thesis by auto
    next
      case (Some r')
      then have "r' = bracket (snd p)" by (simp add: only_marker_def split: if_splits)
      with r Some new show ?thesis by simp
    qed
  qed
qed

lemma after_sub_keeps: "f ds \<noteq> None \<Longrightarrow> after_sub p f ds \<noteq> None"
  by (auto simp: after_sub_def)

lemma after_sub_old: "after_sub p f (str_nat (fst p)) \<noteq> None"
  by (simp add: after_sub_def only_marker_def split: option.split)

lemma fold_after_sub_keeps: "f ds \<noteq> None \<Longrightarrow> fold after_sub cm f ds \<noteq> None"
proof (induction cm arbitrary: f)
  case Nil
  then show ?case by simp
next
  case (Cons q cm)
  from Cons.prems have "after_sub q f ds \<noteq> None" by (rule after_sub_keeps)
  with Cons.IH [of "after_sub q f"] show ?case by simp
qed

lemma fold_after_sub_old: "p \<in> set cm \<Longrightarrow> fold after_sub cm f (str_nat (fst p)) \<noteq> None"
proof (induction cm arbitrary: f)
  case Nil
  then show ?case by simp
next
  case (Cons q cm)
  show ?case
  proof (cases "p = q")
    case True
    have "after_sub q f (str_nat (fst q)) \<noteq> None" by (rule after_sub_old)
    with fold_after_sub_keeps [of "after_sub q f" "str_nat (fst q)" cm]
    have "fold after_sub cm (after_sub q f) (str_nat (fst q)) \<noteq> None"
      by simp
    with True show ?thesis by simp
  next
    case False
    with Cons.prems have "p \<in> set cm" by simp
    with Cons.IH [of "after_sub q f"] show ?thesis by simp
  qed
qed

lemma bracketed_fold_after_sub: "bracketed f \<Longrightarrow> bracketed (fold after_sub cm f)"
  by (induction cm arbitrary: f) (auto simp: bracketed_after_sub)

lemma fold_sub_citation_any:
  "bracketed f \<Longrightarrow> fold sub_citation cm (rewrite f s) = rewrite (fold after_sub cm f) s"
proof (induction cm arbitrary: f)
  case Nil
  then show ?case by simp
next
  case (Cons p cm)
  have "fold sub_citation (p # cm) (rewrite f s) = fold sub_citation cm (sub_citation p (rewrite f s))"
    by simp
  also have "\<dots> = fold sub_citation cm (rewrite (after_sub p f) s)"
    by (simp only: sub_citation_after [OF Cons.prems])
  also have "\<dots> = rewrite (fold after_sub cm (after_sub p f)) s"
    by (rule Cons.IH [OF bracketed_after_sub [OF Cons.prems]])
  finally show ?case by simp
qed

lemma map_of_zip_same_eq: "map_of (zip xs xs) v = Some n \<Longrightarrow> n = v"
  by (induction xs) (auto split: if_splits)

lemma bracketed_none: "bracketed (\<lambda>ds. None)"
  by (simp add: bracketed_def)

text \<open>
  C7: for every text that the normalizer returned and whose marker values are dense (1
  to K), a second run returns the same text, and its citation mapping is the identity
  on the marker values of the text.
\<close>

theorem renumber_citations_dense_output:
  assumes "out = fst (renumber_citations s)" and "dense_markers out"
  shows "fst (renumber_citations out) = out
       \<and> list_all (\<lambda>p. snd p = fst p) (snd (renumber_citations out))
       \<and> map fst (snd (renumber_citations out)) = sort (remdups (map int_of_digits (findall out)))"
proof -
  let ?cm = "snd (renumber_citations s)"
  define f where "f = fold after_sub ?cm (\<lambda>ds. None)"
  have bf: "bracketed f"
    unfolding f_def by (rule bracketed_fold_after_sub [OF bracketed_none])
  have "fst (renumber_citations s) = fold sub_citation ?cm s"
    by (simp add: renumber_citations_def Let_def)
  also have "\<dots> = fold sub_citation ?cm (rewrite (\<lambda>ds. None) s)"
    by (simp add: rewrite_none)
  also have "\<dots> = rewrite f s"
    unfolding f_def by (rule fold_sub_citation_any [OF bracketed_none])
  finally have out: "out = rewrite f s" using assms(1) by simp
  have covered: "f (str_nat (int_of_digits ds)) \<noteq> None" if "ds \<in> set (findall s)" for ds
  proof -
    from that renumber_citations_mapping(5) [OF refl, of s]
    have "int_of_digits ds \<in> set (map fst ?cm)" by auto
    then obtain p where "p \<in> set ?cm" "fst p = int_of_digits ds" by auto
    with fold_after_sub_old [of p ?cm "\<lambda>ds. None"] show ?thesis
      by (simp add: f_def)
  qed
  let ?vs = "sort (remdups (map int_of_digits (findall out)))"
  let ?K = "length ?vs"
  from assms(2) have vs: "?vs = [1..<Suc ?K]"
    by (simp add: dense_markers_def Let_def del: upt_Suc)
  have cm2: "snd (renumber_citations out) = zip ?vs ?vs"
    using vs by (simp add: renumber_citations_def Let_def del: upt_Suc)
  have "0 \<notin> set ?vs"
    by (subst vs) (simp del: upt_Suc)
  then have "0 \<notin> int_of_digits ` set (findall out)" by simp
  from renumber_citations_rewrite [OF this] cm2
  have second: "fst (renumber_citations out) = rewrite (marker_image (map_of (zip ?vs ?vs))) out"
    by simp
  define g where "g = marker_image (map_of (zip ?vs ?vs))"
  have g_same: "r = ''['' @ ds @ '']''" if "g ds = Some r" for ds r
  proof -
    from that have c: "ds = str_nat (int_of_digits ds)"
      by (auto simp: g_def marker_image_def split: if_splits)
    with that obtain n where n: "map_of (zip ?vs ?vs) (int_of_digits ds) = Some n" "r = bracket n"
      by (auto simp: g_def marker_image_def)
    from map_of_zip_same_eq [OF n(1)] n(2) c show ?thesis
      by (simp add: bracket_def)
  qed
  have g_noncanonical: "g ds = None" if "ds \<noteq> str_nat (int_of_digits ds)" for ds
    using that by (simp add: g_def marker_image_def)
  from second have "fst (renumber_citations out) = rewrite g (rewrite f s)"
    by (simp only: g_def out)
  also have "\<dots> = rewrite (\<lambda>ds. case f ds of None \<Rightarrow> g ds | Some r \<Rightarrow> Some (rewrite g r)) s"
    by (rule rewrite_rewrite [OF bf])
  also have "\<dots> = rewrite f s"
  proof (rule rewrite_cong, rule ballI)
    fix ds assume d: "ds \<in> set (findall s)"
    show "(case f ds of None \<Rightarrow> g ds | Some r \<Rightarrow> Some (rewrite g r)) = f ds"
    proof (cases "f ds")
      case None
      with covered [OF d] have "ds \<noteq> str_nat (int_of_digits ds)" by auto
      with None show ?thesis by (simp add: g_noncanonical)
    next
      case (Some r)
      with bf obtain d0 where r: "r = ''['' @ d0 @ '']''" "d0 \<noteq> []" "\<forall>c \<in> set d0. is_digit c"
        unfolding bracketed_def by blast
      have "rewrite g (''['' @ d0 @ '']'') = ''['' @ d0 @ '']''"
        using rewrite_marker_alone [OF r(2,3), of g] g_same [of d0]
        by (cases "g d0") auto
      with Some r(1) show ?thesis by simp
    qed
  qed
  finally have 1: "fst (renumber_citations out) = out" using out by simp
  have 2: "list_all (\<lambda>p. snd p = fst p) (snd (renumber_citations out))"
    unfolding cm2 by (auto simp: list_all_iff set_zip)
  have 3: "map fst (snd (renumber_citations out)) = ?vs"
    unfolding cm2 by (simp add: map_fst_zip)
  from 1 2 3 show ?thesis by simp
qed

theorem renumber_citations_dense_output_witness:
  "''[2] then [1], [2] and [3]'' = fst (renumber_citations ''[5] then [2], [(5)] and [9]'')
   \<and> dense_markers ''[2] then [1], [2] and [3]''
   \<and> renumber_citations ''[2] then [1], [2] and [3]''
       = (''[2] then [1], [2] and [3]'', [(1, 1), (2, 2), (3, 3)])"
proof -
  have a: "''[2] then [1], [2] and [3]'' = fst (renumber_citations ''[5] then [2], [(5)] and [9]'')"
    by code_simp
  have b: "dense_markers ''[2] then [1], [2] and [3]''"
    by code_simp
  have c: "snd (renumber_citations ''[2] then [1], [2] and [3]'') = [(1, 1), (2, 2), (3, 3)]"
    by code_simp
  from renumber_citations_dense_output [OF a b] a b c show ?thesis
    by (simp add: prod_eq_iff)
qed

text \<open>
  That the text was returned by the normalizer matters: in a dense text that was not,
  a parenthesised marker is rewritten to the plain form.
\<close>

lemma dense_parenthesised_rewritten:
  "dense_markers ''see [(1)]'' \<and> renumber_citations ''see [(1)]'' = (''see [1]'', [(1, 1)])"
  by code_simp

text \<open>
  The pattern of the code matches every citation marker of the specification, so a
  text in which it matches nowhere has none. The converse fails: the pattern also
  matches \<^verbatim>\<open>[0]\<close>, and \<^verbatim>\<open>[(5]\<close> and \<^verbatim>\<open>[5)]\<close>.
\<close>

lemma positive_then_split:
  assumes "positive_then closing s"
  shows "\<exists>ds rest. s = ds @ closing @ rest \<and> ds \<noteq> [] \<and> (\<forall>c \<in> set ds. is_digit c)"
proof -
  let ?ds = "takeWhile is_digit s"
  let ?t = "dropWhile is_digit s"
  from assms have ds: "?ds \<noteq> []" and t: "take (length closing) ?t = closing"
    by (simp_all add: positive_then_def Let_def)
  have "?t = take (length closing) ?t @ drop (length closing) ?t" by simp
  with t have "?t = closing @ drop (length closing) ?t" by simp
  then have "s = ?ds @ closing @ drop (length closing) ?t"
    by (metis takeWhile_dropWhile_id)
  moreover have "\<forall>c \<in> set ?ds. is_digit c"
    by (auto dest: set_takeWhileD)
  ultimately show ?thesis using ds by blast
qed

lemma spec_marker_matched:
  assumes "spec_marker_here s"
  shows "match_marker s \<noteq> None"
proof -
  from assms obtain s1 where s: "s = CHR ''['' # s1"
    and c: "positive_then '']'' s1 \<or> (\<exists>s2. s1 = CHR ''('' # s2 \<and> positive_then '')]'' s2)"
    by (auto simp: spec_marker_here_def split: list.splits)
  from c show ?thesis
  proof
    assume "positive_then '']'' s1"
    from positive_then_split [OF this] obtain ds rest
      where "s1 = ds @ '']'' @ rest" "ds \<noteq> []" "\<forall>c \<in> set ds. is_digit c" by blast
    with s have "s = ''['' @ [] @ ds @ [] @ '']'' @ rest" by simp
    with \<open>ds \<noteq> []\<close> \<open>\<forall>c \<in> set ds. is_digit c\<close> have "match_marker s = Some (ds, rest)"
      unfolding match_marker_iff by blast
    then show ?thesis by simp
  next
    assume "\<exists>s2. s1 = CHR ''('' # s2 \<and> positive_then '')]'' s2"
    then obtain s2 where s2: "s1 = CHR ''('' # s2" "positive_then '')]'' s2" by blast
    from positive_then_split [OF s2(2)] obtain ds rest
      where "s2 = ds @ '')]'' @ rest" "ds \<noteq> []" "\<forall>c \<in> set ds. is_digit c" by blast
    with s s2(1) have "s = ''['' @ ''('' @ ds @ '')'' @ '']'' @ rest" by simp
    with \<open>ds \<noteq> []\<close> \<open>\<forall>c \<in> set ds. is_digit c\<close> have "match_marker s = Some (ds, rest)"
      unfolding match_marker_iff by blast
    then show ?thesis by simp
  qed
qed

lemma spec_marker_found: "spec_has_marker s \<Longrightarrow> findall s \<noteq> []"
proof (induction s)
  case Nil
  then show ?case by simp
next
  case (Cons c cs)
  show ?case
  proof (cases "match_marker (c # cs)")
    case (Some p)
    then show ?thesis by (cases p) simp
  next
    case None
    with spec_marker_matched [of "c # cs"] have "\<not> spec_marker_here (c # cs)" by auto
    with Cons.prems have "spec_has_marker cs" by simp
    with Cons.IH None show ?thesis by simp
  qed
qed

text \<open>
  C8, as the code has it: a text in which the pattern of the code matches nowhere (it
  then has no citation marker) is returned unchanged with an empty citation mapping,
  and the source list is empty, whatever the evidence map is. When the file of the
  query can be opened, the file written holds the query heading and the answer section
  only; when it cannot, \<^verbatim>\<open>save_markdown\<close> ends in the error of \<^verbatim>\<open>open\<close>.
\<close>

theorem no_markers_unchanged:
  assumes "findall text = []"
  shows "\<not> spec_has_marker text
       \<and> renumber_citations text = (text, [])
       \<and> links_block (snd (renumber_citations text)) search_dic = Inr []
       \<and> save_markdown query text search_dic files =
           (if can_open files (query @ ''.md'')
            then Inr (files\<lparr>contents := (contents files)(query @ ''.md'' \<mapsto>
                         ''# '' @ query @ newline @ newline @ ''## Answer'' @ newline @ text)\<rparr>)
            else Inl OSError)"
proof -
  from assms spec_marker_found [of "text"] have "\<not> spec_has_marker text" by auto
  moreover from assms have r: "renumber_citations text = (text, [])"
    by (simp add: renumber_citations_def)
  moreover from r have "links_block (snd (renumber_citations text)) search_dic = Inr []"
    by (simp add: links_block_def)
  moreover from r have "save_markdown query text search_dic files =
           (if can_open files (query @ ''.md'')
            then Inr (files\<lparr>contents := (contents files)(query @ ''.md'' \<mapsto>
                         ''# '' @ query @ newline @ newline @ ''## Answer'' @ newline @ text)\<rparr>)
            else Inl OSError)"
    by (simp add: save_markdown_def links_block_def output_content_def write_file_def)
  ultimately show ?thesis by simp
qed

theorem no_markers_unchanged_witness:
  "findall ''Paris (1) is [a] capital.'' = []
   \<and> renumber_citations ''Paris (1) is [a] capital.'' = (''Paris (1) is [a] capital.'', [])
   \<and> save_markdown ''q'' ''Paris (1) is [a] capital.'' None plain_disk =
       Inr (plain_disk\<lparr>contents := [''q.md'' \<mapsto> ''# q'' @ newline @ newline @ ''## Answer''
                                          @ newline @ ''Paris (1) is [a] capital.'']\<rparr>)
   \<and> save_markdown ''a/b'' ''Paris (1) is [a] capital.'' None plain_disk = Inl OSError"
proof -
  have h: "findall ''Paris (1) is [a] capital.'' = []"
    by code_simp
  from no_markers_unchanged [OF h, of None "''q''" plain_disk]
       no_markers_unchanged [OF h, of None "''a/b''" plain_disk] h
  show ?thesis
    by (simp add: plain_disk_def)
qed

text \<open>
  C8 as the specification states it fails. The text \<^verbatim>\<open>x = a[0]\<close> has no citation
  marker, since 0 is not a positive integer; the pattern of the code finds \<^verbatim>\<open>[0]\<close>,
  the text becomes \<^verbatim>\<open>x = a[1]\<close> and the mapping is 0 to 1. Without an evidence map the
  run ends in \<^verbatim>\<open>AttributeError\<close>; with one, the file has a Sources section, whose
  link is the last key of the map. And for a query whose file cannot be opened no file
  is written at all.
\<close>

theorem array_index_renumbered:
  "\<not> spec_has_marker ''x = a[0]''
   \<and> renumber_citations ''x = a[0]'' = (''x = a[1]'', [(0, 1)])
   \<and> save_markdown ''q'' ''x = a[0]'' None plain_disk = Inl AttributeError
   \<and> save_markdown ''q'' ''x = a[0]'' (Some [(''http://a'', ''alpha'')]) plain_disk =
       Inr (plain_disk\<lparr>contents := [''q.md'' \<mapsto>
              ''# q'' @ newline @ newline @ ''## Sources'' @ newline @ ''1. http://a''
              @ newline @ newline @ ''## Answer'' @ newline @ ''x = a[1]'']\<rparr>)
   \<and> \<not> spec_has_marker ''plain''
   \<and> save_markdown ''a/b'' ''plain'' None plain_disk = Inl OSError"
proof -
  have n: "\<not> spec_has_marker ''x = a[0]''" "\<not> spec_has_marker ''plain''"
    by code_simp+
  have r: "renumber_citations ''x = a[0]'' = (''x = a[1]'', [(0, 1)])"
    by code_simp
  have p: "renumber_citations ''plain'' = (''plain'', [])"
    by code_simp
  have g: "generate_citation_links [(0, 1)] (Some [(''http://a'', ''alpha'')])
             = Inr ''1. http://a''"
    by code_simp
  from n r p g show ?thesis
    by (simp add: save_markdown_def links_block_def generate_citation_links_def
        output_content_def write_file_def plain_disk_def)
qed

subsection \<open>The page fetcher\<close>

lemma run_polls_deadline:
  "run_polls (trace_function_factory start) ticks =
     (if \<exists>now \<in> set ticks. now - start > TOTAL_TIMEOUT then Inl TimeoutError else Inr ())"
  by (induction ticks) (auto simp: trace_function_factory_def)

lemma fetch_webpage_url: "fetch_webpage env url t = Inr (u, pt) \<Longrightarrow> u = url"
  by (auto simp: fetch_webpage_def Let_def split: sum.splits fetch_exn.splits)


lemma fetch_serving:
  "fetch_webpage (serving 0 [1] ps) url t = Inr (url, Some (join '' '' ps))"
  by (simp add: fetch_webpage_def try_block_def trace_function_factory_def raise_for_status_def
      serving_def TOTAL_TIMEOUT_def)

lemma fetch_unreachable: "fetch_webpage (unreachable start) url t = Inr (url, None)"
  by (simp add: fetch_webpage_def try_block_def unreachable_def)





subsection \<open>The scheduler\<close>

lemma map_of_dict_set: "map_of (dict_set k v d) = (map_of d)(k \<mapsto> v)"
  by (induction d) (auto simp: fun_eq_iff)

lemma keys_dict_set: "fst ` set (dict_set k v d) = insert k (fst ` set d)"
proof (induction d)
  case Nil
  then show ?case by simp
next
  case (Cons p d)
  obtain k' v' where p: "p = (k', v')" by (cases p)
  show ?case
  proof (cases "k' = k")
    case True
    with p show ?thesis by simp
  next
    case False
    with p Cons show ?thesis by (simp add: insert_commute)
  qed
qed

lemma distinct_dict_set: "distinct (map fst d) \<Longrightarrow> distinct (map fst (dict_set k v d))"
proof (induction d)
  case Nil
  then show ?case by simp
next
  case (Cons p d)
  obtain k' v' where p: "p = (k', v')" by (cases p)
  from Cons have "distinct (map fst (dict_set k v d))" by simp
  moreover have "fst ` set (dict_set k v d) = insert k (fst ` set d)"
    by (rule keys_dict_set)
  ultimately show ?case using Cons.prems p by auto
qed




lemma collect_distinct:
  "collect rs d = Inr m \<Longrightarrow> distinct (map fst d) \<Longrightarrow> distinct (map fst m)"
  by (induction rs d rule: collect.induct) (auto simp: distinct_dict_set split: if_splits)

lemma collect_map_of:
  "collect rs d = Inr m \<Longrightarrow>
     map_of m u = (if texts_for u rs = [] then map_of d u else Some (last (texts_for u rs)))"
  by (induction rs d rule: collect.induct) (auto simp: map_of_dict_set split: if_splits)


lemma texts_for_nonempty:
  "texts_for u rs \<noteq> [] \<longleftrightarrow> (\<exists>text. Inr (u, Some text) \<in> set rs \<and> u \<noteq> [] \<and> text \<noteq> [])"
  by (induction u rs rule: texts_for.induct) auto

lemma map_of_keys: "u \<in> fst ` set m \<longleftrightarrow> map_of m u \<noteq> None"
  by (simp add: map_of_eq_None_iff)

lemma length_futures: "length envs = length urls \<Longrightarrow> length (futures envs urls t) = length urls"
  by (simp add: futures_def)

lemma nth_futures:
  "length envs = length urls \<Longrightarrow> i < length urls \<Longrightarrow>
     futures envs urls t ! i = fetch_webpage (envs ! i) (urls ! i) t"
  by (simp add: futures_def)


lemma completed_results:
  assumes "length envs = length urls" and "set order = {0..<length urls}"
  shows "r \<in> set (as_completed order (futures envs urls t)) \<longleftrightarrow>
           (\<exists>i<length urls. r = fetch_webpage (envs ! i) (urls ! i) t)"
proof
  assume "r \<in> set (as_completed order (futures envs urls t))"
  then obtain i where "i \<in> set order" "r = futures envs urls t ! i"
    by (auto simp: as_completed_def)
  with assms(2) nth_futures [OF assms(1)]
  show "\<exists>i<length urls. r = fetch_webpage (envs ! i) (urls ! i) t"
    by auto
next
  assume "\<exists>i<length urls. r = fetch_webpage (envs ! i) (urls ! i) t"
  then obtain i where i: "i < length urls" "r = fetch_webpage (envs ! i) (urls ! i) t" by blast
  with assms(2) have "i \<in> set order" by simp
  then have "futures envs urls t ! i \<in> (\<lambda>i. futures envs urls t ! i) ` set order"
    by (rule imageI)
  with i nth_futures [OF assms(1) i(1), of t]
  show "r \<in> set (as_completed order (futures envs urls t))"
    by (simp add: as_completed_def)
qed

lemma three_futures:
  "futures three_envs three_urls t =
     [Inr (''http://a'', Some ''alpha beta''), Inr (''http://b'', None), Inr (''http://c'', Some [])]"
  by (simp add: futures_def three_envs_def three_urls_def fetch_serving fetch_unreachable)

lemma three_result:
  "google_parse_webpages (search_fixed three_urls) three_envs [2, 0, 1] ''q'' 10 3
     = Inr [(''http://a'', ''alpha beta'')]"
proof -
  have "search_fixed three_urls ''q'' 10 = three_urls"
    by (simp add: search_fixed_def three_urls_def)
  then show ?thesis
    by (simp add: google_parse_webpages_def three_futures as_completed_def)
qed



text \<open>
  C2, as the code has it. A fetch that succeeds (no poll past the deadline of the call,
  a response, no error status) returns the URL with the texts of the paragraphs joined
  by single spaces, which is the empty string for a page without paragraphs. The
  scheduler keeps a result only when its URL and its text are both non-empty: the keys
  of the evidence map are the URLs of exactly the fetches that returned a non-empty
  text, so a successful fetch of a page without paragraphs yields no entry.
\<close>

theorem successes_with_text_are_kept:
  assumes "urls = search query num_search"
    and "length envs = length urls"
    and "set order = {0..<length urls}"
    and "google_parse_webpages search envs order query num_search t = Inr m"
  shows "(\<forall>env url response.
            \<not> (\<exists>now \<in> set (polls env). now - entry_time env > TOTAL_TIMEOUT)
            \<and> http_get env url t = Inr response
            \<and> \<not> (400 \<le> status_code response \<and> status_code response < 600)
            \<longrightarrow> fetch_webpage env url t = Inr (url, Some (join '' '' (paragraphs response)))
                \<and> (paragraphs response = [] \<longrightarrow> fetch_webpage env url t = Inr (url, Some [])))
       \<and> fst ` set m =
           {u. \<exists>i<length urls. \<exists>text.
                 fetch_webpage (envs ! i) (urls ! i) t = Inr (u, Some text)
                 \<and> u \<noteq> [] \<and> text \<noteq> []}"
proof -
  let ?rs = "as_completed order (futures envs urls t)"
  have fetch: "fetch_webpage env url t = Inr (url, Some (join '' '' (paragraphs response)))
                \<and> (paragraphs response = [] \<longrightarrow> fetch_webpage env url t = Inr (url, Some []))"
    if "\<not> (\<exists>now \<in> set (polls env). now - entry_time env > TOTAL_TIMEOUT)"
      and "http_get env url t = Inr response"
      and "\<not> (400 \<le> status_code response \<and> status_code response < 600)"
    for env url response
    using that
    by (auto simp: fetch_webpage_def try_block_def run_polls_deadline raise_for_status_def)
  from assms(1,4) have m: "collect ?rs [] = Inr m"
    by (simp add: google_parse_webpages_def)
  have "u \<in> fst ` set m \<longleftrightarrow> texts_for u ?rs \<noteq> []" for u
    using collect_map_of [OF m, of u] by (simp add: map_of_keys)
  then have "u \<in> fst ` set m \<longleftrightarrow>
      (\<exists>i<length urls. \<exists>text. fetch_webpage (envs ! i) (urls ! i) t = Inr (u, Some text)
                 \<and> u \<noteq> [] \<and> text \<noteq> [])" for u
    unfolding texts_for_nonempty
    using completed_results [OF assms(2,3), of "Inr (u, Some _)" t]
    by (metis (no_types, lifting))
  then have "fst ` set m =
           {u. \<exists>i<length urls. \<exists>text.
                 fetch_webpage (envs ! i) (urls ! i) t = Inr (u, Some text)
                 \<and> u \<noteq> [] \<and> text \<noteq> []}"
    by blast
  with fetch show ?thesis by blast
qed

theorem successes_with_text_are_kept_witness:
  "google_parse_webpages (search_fixed three_urls) three_envs [2, 0, 1] ''q'' 10 3
     = Inr [(''http://a'', ''alpha beta'')]
   \<and> fetch_webpage (three_envs ! 0) (three_urls ! 0) 3 = Inr (''http://a'', Some ''alpha beta'')
   \<and> fetch_webpage (three_envs ! 2) (three_urls ! 2) 3 = Inr (''http://c'', Some [])
   \<and> ''http://a'' \<in> {u. \<exists>i<length three_urls. \<exists>text.
                 fetch_webpage (three_envs ! i) (three_urls ! i) 3 = Inr (u, Some text)
                 \<and> u \<noteq> [] \<and> text \<noteq> []}
   \<and> ''http://c'' \<notin> {u. \<exists>i<length three_urls. \<exists>text.
                 fetch_webpage (three_envs ! i) (three_urls ! i) 3 = Inr (u, Some text)
                 \<and> u \<noteq> [] \<and> text \<noteq> []}"
proof -
  have u: "three_urls = search_fixed three_urls ''q'' 10"
    by (simp add: search_fixed_def three_urls_def)
  have l: "length three_envs = length three_urls"
    by (simp add: three_envs_def three_urls_def)
  have s: "set [2, 0, 1::nat] = {0..<length three_urls}"
    by (auto simp: three_urls_def)
  have f0: "fetch_webpage (three_envs ! 0) (three_urls ! 0) 3 = Inr (''http://a'', Some ''alpha beta'')"
    by (simp add: three_envs_def three_urls_def fetch_serving)
  have f2: "fetch_webpage (three_envs ! 2) (three_urls ! 2) 3 = Inr (''http://c'', Some [])"
    by (simp add: three_envs_def three_urls_def fetch_serving)
  from successes_with_text_are_kept
         [where search = "search_fixed three_urls" and query = "''q''" and num_search = 10,
          OF u l s three_result]
  have "fst ` set [(''http://a'', ''alpha beta'')] =
           {u. \<exists>i<length three_urls. \<exists>text.
                 fetch_webpage (three_envs ! i) (three_urls ! i) 3 = Inr (u, Some text)
                 \<and> u \<noteq> [] \<and> text \<noteq> []}"
    by blast
  then have "{u. \<exists>i<length three_urls. \<exists>text.
                 fetch_webpage (three_envs ! i) (three_urls ! i) 3 = Inr (u, Some text)
                 \<and> u \<noteq> [] \<and> text \<noteq> []} = {''http://a''}"
    by simp
  with three_result f0 f2 show ?thesis by simp
qed

text \<open>
  C2 as the specification states it fails: the fetch of a page without paragraphs
  succeeds with the empty text, and the evidence map returned has no entry for it.
\<close>

theorem empty_page_not_inserted:
  "fetch_webpage (serving 0 [1] []) ''http://c'' 3 = Inr (''http://c'', Some [])
   \<and> google_parse_webpages (search_fixed [''http://c'']) [serving 0 [1] []] [0] ''q'' 10 3
       = Inr []"
  by (simp add: google_parse_webpages_def search_fixed_def futures_def as_completed_def
      fetch_serving)

text \<open>
  C9, as the code has it. Every occurrence of a URL in the list is a call of its own
  (the i-th call runs in its own world). The keys of the evidence map are distinct, and
  the entry of a URL holds the text of the last completed fetch of that URL among those
  that returned a non-empty text; a URL none of whose fetches returned a non-empty text
  has no entry.
\<close>

theorem google_parse_webpages_last_write:
  assumes "google_parse_webpages search envs order query num_search t = Inr m"
    and "urls = search query num_search"
    and "length envs = length urls"
  shows "(\<forall>i<length urls. futures envs urls t ! i = fetch_webpage (envs ! i) (urls ! i) t)
       \<and> distinct (map fst m)
       \<and> map_of m u =
           (case texts_for u (as_completed order (futures envs urls t)) of
              [] \<Rightarrow> None
            | x # xs \<Rightarrow> Some (last (x # xs)))"
proof -
  let ?rs = "as_completed order (futures envs urls t)"
  from assms(1,2) have m: "collect ?rs [] = Inr m"
    by (simp add: google_parse_webpages_def)
  from collect_distinct [OF m] have "distinct (map fst m)" by simp
  moreover from collect_map_of [OF m, of u]
  have "map_of m u = (case texts_for u ?rs of [] \<Rightarrow> None | x # xs \<Rightarrow> Some (last (x # xs)))"
    by (simp split: list.split)
  moreover from nth_futures [OF assms(3)]
  have "\<forall>i<length urls. futures envs urls t ! i = fetch_webpage (envs ! i) (urls ! i) t"
    by simp
  ultimately show ?thesis by simp
qed

lemma thrice_completed:
  "as_completed [1, 2, 0] (futures thrice_envs (search_fixed same_url_thrice ''q'' 10) 3) =
     [Inr (''http://a'', Some ''second''), Inr (''http://a'', None),
      Inr (''http://a'', Some ''first'')]"
  by (simp add: as_completed_def futures_def thrice_envs_def same_url_thrice_def search_fixed_def
      fetch_serving fetch_unreachable)

text \<open>
  The same URL three times; the second call completes first, then the third, which
  fails, then the first.
\<close>

theorem google_parse_webpages_last_write_witness:
  "google_parse_webpages (search_fixed same_url_thrice) thrice_envs [1, 2, 0] ''q'' 10 3
     = Inr [(''http://a'', ''first'')]
   \<and> texts_for ''http://a''
        (as_completed [1, 2, 0] (futures thrice_envs (search_fixed same_url_thrice ''q'' 10) 3))
     = [''second'', ''first'']
   \<and> map_of [(''http://a'', ''first'')] ''http://a'' = Some (last [''second'', ''first''])"
proof -
  have r: "google_parse_webpages (search_fixed same_url_thrice) thrice_envs [1, 2, 0] ''q'' 10 3
             = Inr [(''http://a'', ''first'')]"
    unfolding google_parse_webpages_def Let_def thrice_completed by simp
  have t: "texts_for ''http://a''
        (as_completed [1, 2, 0] (futures thrice_envs (search_fixed same_url_thrice ''q'' 10) 3))
     = [''second'', ''first'']"
    unfolding thrice_completed by simp
  have l: "length thrice_envs = length (search_fixed same_url_thrice ''q'' 10)"
    by (simp add: thrice_envs_def same_url_thrice_def search_fixed_def)
  from google_parse_webpages_last_write [OF r refl l, of "''http://a''"] r t show ?thesis
    by simp
qed

text \<open>
  C9 as the specification states it fails: of two fetches of one URL the first completes
  with the text \<^verbatim>\<open>abc\<close>, the second completes after it and succeeds with the empty
  text; the entry holds \<^verbatim>\<open>abc\<close>, not the text of the last completed successful
  fetch.
\<close>

theorem last_success_not_written:
  "as_completed [0, 1] (futures twice_envs (search_fixed same_url_twice ''q'' 10) 3) =
     [Inr (''http://a'', Some ''abc''), Inr (''http://a'', Some [])]
   \<and> google_parse_webpages (search_fixed same_url_twice) twice_envs [0, 1] ''q'' 10 3
       = Inr [(''http://a'', ''abc'')]"
  by (simp add: google_parse_webpages_def as_completed_def futures_def twice_envs_def
      same_url_twice_def search_fixed_def fetch_serving)

end
